theory Spec2Isabelle
  imports Main "HOL-Library.Word" "HOL-Library.Monad_Syntax"
begin

section \<open>Machine integers\<close>

text \<open>
  \<^verbatim>\<open>typedef unsigned vertID\<close>: vertex indices, dimensions and the edge counter are
  32-bit unsigned integers. They are modelled as natural numbers below \<open>2 ^ 32\<close>, every
  arithmetic result being reduced by \<open>u32\<close>. An \<^verbatim>\<open>int\<close> argument is a 32-bit word, read
  as a signed value by \<open>sint\<close>; \<^verbatim>\<open>static_cast<vertID>\<close> keeps its bits (\<open>unat\<close>).
\<close>

type_synonym vertID = nat
type_synonym c_int = "32 word"

definition u32 :: "nat \<Rightarrow> nat" where
  "u32 n = n mod 2 ^ 32"

definition usub :: "nat \<Rightarrow> nat \<Rightarrow> nat" where
  \<comment> \<open>unsigned subtraction \<^verbatim>\<open>a - b\<close> of two values below \<open>2 ^ 32\<close>\<close>
  "usub a b = (a + 2 ^ 32 - b) mod 2 ^ 32"

section \<open>graph.hpp: the weighted graph\<close>

text \<open>
  A failed \<^verbatim>\<open>assert\<close> ends the process; an unchecked \<^verbatim>\<open>vector\<close> access out of range is
  undefined behaviour. Both are the result \<open>None\<close> of the operation that meets them.
\<close>

record 'e Edge =
  neigh :: vertID
  val :: 'e

record ('v, 'e) Vertex =
  key :: 'v
  elist :: "'e Edge list"

record ('v, 'e) Graph =
  nedges :: nat
  vlist :: "('v, 'e) Vertex list"

subsection \<open>Vertex\<close>

text \<open>\<^verbatim>\<open>Vertex::find\<close>: the index of the first edge to \<open>n\<close>, or \<open>-1\<close>; the loop counter is \<open>i\<close>.\<close>

fun find_from :: "'e Edge list \<Rightarrow> vertID \<Rightarrow> int \<Rightarrow> int" where
  "find_from [] n i = -1"
| "find_from (e # es) n i = (if neigh e = n then i else find_from es n (i + 1))"

definition find_V :: "('v, 'e) Vertex \<Rightarrow> vertID \<Rightarrow> int" where
  "find_V v n = find_from (elist v) n 0"

definition add_V :: "('v, 'e) Vertex \<Rightarrow> vertID \<Rightarrow> 'e \<Rightarrow> ('v, 'e) Vertex" where
  "add_V v n weight = v\<lparr>elist := elist v @ [\<lparr>neigh = n, val = weight\<rparr>]\<rparr>"

definition is_adjacent_V :: "('v, 'e) Vertex \<Rightarrow> vertID \<Rightarrow> bool" where
  "is_adjacent_V v n = (find_V v n \<ge> 0)"

definition get_weight_V :: "('v, 'e) Vertex \<Rightarrow> vertID \<Rightarrow> 'e option" where
  "get_weight_V v n =
     (let i = find_V v n in
      if i \<ge> 0 then Some (val (elist v ! nat i)) else None)"

definition set_weight_V :: "('v, 'e) Vertex \<Rightarrow> vertID \<Rightarrow> 'e \<Rightarrow> ('v, 'e) Vertex option" where
  "set_weight_V v n weight =
     (let i = find_V v n in
      if i \<ge> 0 then Some (v\<lparr>elist := (elist v)[nat i := (elist v ! nat i)\<lparr>val := weight\<rparr>]\<rparr>)
      else None)"

definition get_neighbors_V :: "('v, 'e) Vertex \<Rightarrow> vertID list" where
  "get_neighbors_V v = map neigh (elist v)"

subsection \<open>Graph\<close>


definition get_nodes :: "('v, 'e, 'z) Graph_scheme \<Rightarrow> nat" where
  "get_nodes g = u32 (length (vlist g))"

definition get_edges :: "('v, 'e, 'z) Graph_scheme \<Rightarrow> nat" where
  "get_edges g = nedges g"

definition validate_vertex :: "('v, 'e, 'z) Graph_scheme \<Rightarrow> vertID \<Rightarrow> bool" where
  "validate_vertex g x = (x < get_nodes g)"

definition validate_vertices :: "('v, 'e, 'z) Graph_scheme \<Rightarrow> vertID \<Rightarrow> vertID \<Rightarrow> bool" where
  "validate_vertices g x y = (validate_vertex g x \<and> validate_vertex g y)"

definition is_adjacent :: "('v, 'e, 'z) Graph_scheme \<Rightarrow> vertID \<Rightarrow> vertID \<Rightarrow> bool option" where
  "is_adjacent g x y =
     (if validate_vertices g x y then Some (is_adjacent_V (vlist g ! x) y) else None)"

definition is_vertex :: "('v, 'e, 'z) Graph_scheme \<Rightarrow> vertID \<Rightarrow> bool" where
  "is_vertex g x = (x < get_nodes g)"

definition get_edge_weight :: "('v, 'e, 'z) Graph_scheme \<Rightarrow> vertID \<Rightarrow> vertID \<Rightarrow> 'e option" where
  "get_edge_weight g x y =
     (if validate_vertices g x y then get_weight_V (vlist g ! x) y else None)"

definition get_vertex_key :: "('v, 'e, 'z) Graph_scheme \<Rightarrow> vertID \<Rightarrow> 'v option" where
  "get_vertex_key g x = (if validate_vertex g x then Some (key (vlist g ! x)) else None)"

definition get_neighbors :: "('v, 'e, 'z) Graph_scheme \<Rightarrow> vertID \<Rightarrow> vertID list option" where
  \<comment> \<open>\<^verbatim>\<open>vlist[v]\<close> is not validated here\<close>
  "get_neighbors g v =
     (if v < length (vlist g) then Some (get_neighbors_V (vlist g ! v)) else None)"

definition add_vertex :: "('v, 'e, 'z) Graph_scheme \<Rightarrow> 'v \<Rightarrow> ('v, 'e, 'z) Graph_scheme" where
  "add_vertex g k = g\<lparr>vlist := vlist g @ [\<lparr>key = k, elist = []\<rparr>]\<rparr>"

definition set_edge_weight ::
  "('v, 'e, 'z) Graph_scheme \<Rightarrow> vertID \<Rightarrow> vertID \<Rightarrow> 'e \<Rightarrow> ('v, 'e, 'z) Graph_scheme option" where
  "set_edge_weight g x y weight =
     (if validate_vertices g x y then
        (case set_weight_V (vlist g ! x) y weight of
           None \<Rightarrow> None
         | Some vx \<Rightarrow>
             (let g1 = g\<lparr>vlist := (vlist g)[x := vx]\<rparr> in
              case set_weight_V (vlist g1 ! y) x weight of
                None \<Rightarrow> None
              | Some vy \<Rightarrow> Some (g1\<lparr>vlist := (vlist g1)[y := vy]\<rparr>)))
      else None)"

definition add_edge ::
  "('v, 'e, 'z) Graph_scheme \<Rightarrow> vertID \<Rightarrow> vertID \<Rightarrow> 'e \<Rightarrow> ('v, 'e, 'z) Graph_scheme option" where
  "add_edge g x y weight =
     (if validate_vertices g x y then
        (case is_adjacent g x y of
           None \<Rightarrow> None
         | Some adj \<Rightarrow>
             if \<not> adj then
               (let g1 = g\<lparr>vlist := (vlist g)[x := add_V (vlist g ! x) y weight]\<rparr>;
                    g2 = g1\<lparr>vlist := (vlist g1)[y := add_V (vlist g1 ! y) x weight]\<rparr>
                in Some (g2\<lparr>nedges := u32 (nedges g2 + 1)\<rparr>))
             else set_edge_weight g x y weight)
      else None)"

definition set_vertex_key ::
  "('v, 'e, 'z) Graph_scheme \<Rightarrow> vertID \<Rightarrow> 'v \<Rightarrow> ('v, 'e, 'z) Graph_scheme option" where
  "set_vertex_key g x k =
     (if validate_vertex g x then Some (g\<lparr>vlist := (vlist g)[x := (vlist g ! x)\<lparr>key := k\<rparr>]\<rparr>)
      else None)"

definition clear :: "('v, 'e, 'z) Graph_scheme \<Rightarrow> ('v, 'e, 'z) Graph_scheme" where
  \<comment> \<open>only the vertex list is emptied; the edge counter keeps its value\<close>
  "clear g = g\<lparr>vlist := []\<rparr>"

subsection \<open>Properties of graphs built through the interface\<close>

definition edges_to :: "('v, 'e) Vertex \<Rightarrow> vertID \<Rightarrow> 'e Edge list" where
  "edges_to v n = filter (\<lambda>e. neigh e = n) (elist v)"

definition simple_graph :: "('v, 'e, 'z) Graph_scheme \<Rightarrow> bool" where
  "simple_graph g \<longleftrightarrow>
     (\<forall>x \<in> set [0..<length (vlist g)]. \<forall>y \<in> set [0..<length (vlist g)]. x \<noteq> y \<longrightarrow>
        length (edges_to (vlist g ! x) y) \<le> 1 \<and>
        (is_adjacent_V (vlist g ! x) y \<longleftrightarrow> is_adjacent_V (vlist g ! y) x))"

definition weights_between :: "('v, 'e, 'z) Graph_scheme \<Rightarrow> vertID \<Rightarrow> vertID \<Rightarrow> 'e list" where
  \<comment> \<open>the weights of the entries for \<open>y\<close> in the adjacency list of \<open>x\<close>\<close>
  "weights_between g x y = map val (edges_to (vlist g ! x) y)"

definition loops_paired :: "('v, 'e, 'z) Graph_scheme \<Rightarrow> bool" where
  \<comment> \<open>an edge from a vertex to itself is two entries of the one adjacency list\<close>
  "loops_paired g \<longleftrightarrow>
     (\<forall>x \<in> set [0..<length (vlist g)].
        length (edges_to (vlist g ! x) x) = 0 \<or> length (edges_to (vlist g ! x) x) = 2)"


definition new_neighbors :: "vertID \<Rightarrow> vertID \<Rightarrow> vertID \<Rightarrow> vertID list" where
  \<comment> \<open>what a new edge between \<open>a\<close> and \<open>b\<close> appends to the adjacency list of \<open>x\<close>\<close>
  "new_neighbors a b x = (if x = a then [b] else []) @ (if x = b then [a] else [])"

definition edges_in_range :: "('v, 'e, 'z) Graph_scheme \<Rightarrow> bool" where
  "edges_in_range g \<longleftrightarrow>
     (\<forall>v \<in> set (vlist g). \<forall>m \<in> set (get_neighbors_V v). m < length (vlist g))"

section \<open>hexboard.hpp: the board\<close>

datatype Color = BLUE | RED | GRAY | WHITE

datatype Outcome = OCC_ERROR | OOB_ERROR | NO_WIN | P1_WIN | P2_WIN

text \<open>A counted loop whose body may fail: \<^verbatim>\<open>for (i = ...) body\<close> over the values of \<open>i\<close>.\<close>

fun for_each :: "'i list \<Rightarrow> ('i \<Rightarrow> 's \<Rightarrow> 's option) \<Rightarrow> 's \<Rightarrow> 's option" where
  "for_each [] body s = Some s"
| "for_each (i # is) body s = (case body i s of None \<Rightarrow> None | Some s' \<Rightarrow> for_each is body s')"

subsection \<open>Transpose\<close>

record Transpose =
  ro :: vertID
  co :: vertID
  dim :: vertID

definition Transpose_op :: "Transpose \<Rightarrow> vertID \<Rightarrow> vertID \<Rightarrow> vertID option" where
  \<comment> \<open>\<^verbatim>\<open>operator()\<close>; the sums and the product wrap, so one reduction at the end is the same\<close>
  "Transpose_op t row col =
     (let i = u32 ((row + ro t) * dim t + (col + co t)) in
      if i < u32 (dim t * dim t) then Some i else None)"

subsection \<open>HexBoard\<close>

record HexBoard = "(Color, int) Graph" +
  abs_dim :: vertID
  rel_dim :: vertID
  abs_pos :: Transpose
  rel_pos :: Transpose
  p1_turn :: bool

definition get_current_player :: "HexBoard \<Rightarrow> int" where
  "get_current_player b = (if p1_turn b then 1 else 2)"

definition get_current_player_symbol :: "HexBoard \<Rightarrow> Color" where
  "get_current_player_symbol b = (if p1_turn b then BLUE else RED)"

definition get_playable_dim :: "HexBoard \<Rightarrow> c_int" where
  "get_playable_dim b = word_of_nat (rel_dim b)"

text \<open>\<^verbatim>\<open>set_vertex_key(abs_pos(row,col), c)\<close> and \<^verbatim>\<open>add_edge(abs_pos(r1,c1), abs_pos(r2,c2), 1)\<close>.\<close>

definition paint :: "HexBoard \<Rightarrow> vertID \<Rightarrow> vertID \<Rightarrow> Color \<Rightarrow> HexBoard option" where
  "paint b row col c = do { p \<leftarrow> Transpose_op (abs_pos b) row col; set_vertex_key b p c }"

definition link :: "HexBoard \<Rightarrow> vertID \<Rightarrow> vertID \<Rightarrow> vertID \<Rightarrow> vertID \<Rightarrow> HexBoard option" where
  "link b r1 c1 r2 c2 = do {
     p \<leftarrow> Transpose_op (abs_pos b) r1 c1;
     q \<leftarrow> Transpose_op (abs_pos b) r2 c2;
     add_edge b p q 1 }"

definition paint_col :: "vertID \<Rightarrow> HexBoard \<Rightarrow> HexBoard option" where
  \<comment> \<open>body of the colouring loop of \<^verbatim>\<open>reset_board\<close>\<close>
  "paint_col col b0 = do {
     b \<leftarrow> paint b0 0 col RED;
     b \<leftarrow> paint b (usub (abs_dim b) 1) col RED;
     b \<leftarrow> paint b col 0 BLUE;
     b \<leftarrow> paint b col (usub (abs_dim b) 1) BLUE;
     b \<leftarrow> paint b 0 0 GRAY;
     b \<leftarrow> paint b 0 (usub (abs_dim b) 1) GRAY;
     b \<leftarrow> paint b (usub (abs_dim b) 1) 0 GRAY;
     paint b (usub (abs_dim b) 1) (usub (abs_dim b) 1) GRAY }"

definition wire_cell :: "vertID \<Rightarrow> vertID \<Rightarrow> HexBoard \<Rightarrow> HexBoard option" where
  \<comment> \<open>body of the inner edge loop of \<^verbatim>\<open>reset_board\<close>\<close>
  "wire_cell row col b0 = do {
     b \<leftarrow> (if col < usub (abs_dim b0) 1 then link b0 row col row (u32 (col + 1)) else Some b0);
     b \<leftarrow> (if row < usub (abs_dim b) 1 then link b row col (u32 (row + 1)) col else Some b);
     (if col > 0 \<and> row < usub (abs_dim b) 1 then link b row col (u32 (row + 1)) (usub col 1)
      else Some b) }"

definition wire_row :: "vertID \<Rightarrow> HexBoard \<Rightarrow> HexBoard option" where
  \<comment> \<open>body of the outer edge loop of \<^verbatim>\<open>reset_board\<close>\<close>
  "wire_row row b0 = do {
     b \<leftarrow> for_each [0..<abs_dim b0] (wire_cell row) b0;
     (if row < usub (abs_dim b) 1
      then link b row (usub (abs_dim b) 1) (u32 (row + 1)) (usub (abs_dim b) 1)
      else Some b) }"

definition reset_board :: "HexBoard \<Rightarrow> HexBoard option" where
  "reset_board b0 = do {
     b \<leftarrow> for_each [0..<u32 (abs_dim b0 * abs_dim b0)] (\<lambda>i b. Some (add_vertex b WHITE)) (clear b0);
     b \<leftarrow> for_each [0..<abs_dim b] paint_col b;
     b \<leftarrow> for_each [0..<abs_dim b] wire_row b;
     Some (b\<lparr>p1_turn := True\<rparr>) }"

definition HexBoard_new :: "nat \<Rightarrow> HexBoard option" where
  \<comment> \<open>the constructor \<^verbatim>\<open>HexBoard(unsigned dim)\<close>, for \<open>d < 2 ^ 32\<close>\<close>
  "HexBoard_new d =
     (let b = \<lparr>nedges = 0, vlist = [], abs_dim = u32 (d + 2), rel_dim = d,
                abs_pos = \<lparr>ro = 0, co = 0, dim = u32 (d + 2)\<rparr>,
                rel_pos = \<lparr>ro = 1, co = 1, dim = u32 (d + 2)\<rparr>, p1_turn = True\<rparr>
      in if rel_dim b > 2 then reset_board b else None)"

subsection \<open>is\_victory\<close>

text \<open>
  The inner \<^verbatim>\<open>for\<close> loop over the neighbours of the popped vertex. It either finds \<open>dst\<close>
  or goes on with the updated \<open>visited\<close> vector and stack. The stack is a list whose head is
  \<^verbatim>\<open>stack.back()\<close>.
\<close>

datatype scan = Found | Pending "bool list" "vertID list"

fun scan_neigh ::
  "HexBoard \<Rightarrow> Color \<Rightarrow> vertID \<Rightarrow> vertID list \<Rightarrow> bool list \<Rightarrow> vertID list \<Rightarrow> scan option" where
  "scan_neigh b symb dst [] visited stack = Some (Pending visited stack)"
| "scan_neigh b symb dst (p # ps) visited stack =
     (if p = dst then Some Found
      else if p < length visited then
        (if \<not> visited ! p then
           (case get_vertex_key b p of
              None \<Rightarrow> None
            | Some k \<Rightarrow>
                scan_neigh b symb dst ps (visited[p := True]) (if k = symb then p # stack else stack))
         else scan_neigh b symb dst ps visited stack)
      else None)"

definition unvisited :: "bool list \<Rightarrow> nat" where
  "unvisited visited = length (filter Not visited)"

lemma unvisited_update:
  "p < length vs \<Longrightarrow> \<not> vs ! p \<Longrightarrow> Suc (unvisited (vs[p := True])) = unvisited vs"
  unfolding unvisited_def
proof (induction vs arbitrary: p)
  case Nil
  then show ?case by simp
next
  case (Cons v vs)
  then show ?case by (cases p) auto
qed

lemma scan_neigh_measure:
  "scan_neigh b symb dst ps visited stack = Some (Pending visited' stack') \<Longrightarrow>
   unvisited visited' + length stack' \<le> unvisited visited + length stack"
proof (induction ps arbitrary: visited stack)
  case Nil
  then show ?case by simp
next
  case (Cons p ps)
  show ?case
  proof (cases "p \<noteq> dst \<and> p < length visited \<and> \<not> visited ! p")
    case True
    then obtain k where k: "get_vertex_key b p = Some k"
      using Cons.prems by (auto split: option.splits)
    let ?st = "if k = symb then p # stack else stack"
    have "scan_neigh b symb dst ps (visited[p := True]) ?st = Some (Pending visited' stack')"
      using Cons.prems True k by simp
    from Cons.IH [OF this]
    have le: "unvisited visited' + length stack' \<le> unvisited (visited[p := True]) + length ?st" .
    have "Suc (unvisited (visited[p := True])) = unvisited visited"
      using True by (simp add: unvisited_update)
    then show ?thesis using le by (auto split: if_splits)
  next
    case False
    then show ?thesis using Cons by (auto split: if_splits)
  qed
qed

function dfs_loop ::
  "HexBoard \<Rightarrow> Color \<Rightarrow> vertID \<Rightarrow> bool list \<Rightarrow> vertID list \<Rightarrow> (bool \<times> HexBoard) option" where
  "dfs_loop b symb dst visited stack =
     (case stack of
        [] \<Rightarrow> Some (False, b)
      | topv # rest \<Rightarrow>
          (case get_neighbors b topv of
             None \<Rightarrow> None
           | Some ns \<Rightarrow>
               (case scan_neigh b symb dst ns visited rest of
                  None \<Rightarrow> None
                | Some Found \<Rightarrow> Some (True, b)
                | Some (Pending visited' stack') \<Rightarrow> dfs_loop b symb dst visited' stack')))"
  by pat_completeness auto
termination
proof (relation "measure (\<lambda>(b, symb, dst, visited, stack). unvisited visited + length stack)")
  show "wf (measure (\<lambda>(b, symb, dst, visited, stack). unvisited visited + length stack))"
    by simp
next
  fix b symb dst visited stack topv rest ns r visited' stack'
  assume "stack = topv # rest"
    and "scan_neigh b symb dst ns visited rest = Some r" and "r = Pending visited' stack'"
  then show "((b, symb, dst, visited', stack'), (b, symb, dst, visited, stack))
       \<in> measure (\<lambda>(b, symb, dst, visited, stack). unvisited visited + length stack)"
    using scan_neigh_measure [of b symb dst ns visited rest visited' stack'] by simp
qed

definition is_victory :: "HexBoard \<Rightarrow> Color \<Rightarrow> (bool \<times> HexBoard) option" where
  \<comment> \<open>the answer, and the board as the call leaves it\<close>
  "is_victory b symb = do {
     src \<leftarrow> (if symb = BLUE then Transpose_op (abs_pos b) 1 0 else Transpose_op (abs_pos b) 0 1);
     dst \<leftarrow> (if symb = BLUE
             then Transpose_op (abs_pos b) (usub (abs_dim b) 2) (usub (abs_dim b) 1)
             else Transpose_op (abs_pos b) (usub (abs_dim b) 1) (usub (abs_dim b) 2));
     dfs_loop b symb dst (replicate (get_nodes b) False) [src] }"

subsection \<open>play and the board accessors\<close>

definition play :: "HexBoard \<Rightarrow> c_int \<Rightarrow> c_int \<Rightarrow> (Outcome \<times> HexBoard) option" where
  \<comment> \<open>\<^verbatim>\<open>row>=0 && col>=0\<close> holds of every unsigned value\<close>
  "play b rowi coli =
     (let row = unat rowi; col = unat coli in
      if \<not> (row < rel_dim b \<and> col < rel_dim b) then Some (OOB_ERROR, b)
      else do {
        p \<leftarrow> Transpose_op (rel_pos b) row col;
        k \<leftarrow> get_vertex_key b p;
        if k \<noteq> WHITE then Some (OCC_ERROR, b)
        else do {
          q \<leftarrow> Transpose_op (rel_pos b) row col;
          b1 \<leftarrow> set_vertex_key b q (if p1_turn b then BLUE else RED);
          (won, b2) \<leftarrow> is_victory b1 (get_current_player_symbol b1);
          if won then Some (if p1_turn b2 then P1_WIN else P2_WIN, b2)
          else Some (NO_WIN, b2\<lparr>p1_turn := \<not> p1_turn b2\<rparr>) } })"

definition free_cell :: "HexBoard \<Rightarrow> vertID \<Rightarrow> vertID \<Rightarrow> vertID list \<Rightarrow> vertID list option" where
  \<comment> \<open>body of the inner loop of \<^verbatim>\<open>get_free_vertices\<close>\<close>
  "free_cell b row col fvert = do {
     p \<leftarrow> Transpose_op (rel_pos b) row col;
     k \<leftarrow> get_vertex_key b p;
     if k = WHITE then do { q \<leftarrow> Transpose_op (rel_pos b) row col; Some (fvert @ [q]) }
     else Some fvert }"

definition get_free_vertices :: "HexBoard \<Rightarrow> vertID list option" where
  "get_free_vertices b =
     for_each [0..<rel_dim b] (\<lambda>row. for_each [0..<rel_dim b] (\<lambda>col. free_cell b row col)) []"

definition vertex_to_row_col :: "HexBoard \<Rightarrow> vertID \<Rightarrow> (c_int \<times> c_int) option" where
  \<comment> \<open>a division by zero is undefined behaviour\<close>
  "vertex_to_row_col b vert =
     (if abs_dim b = 0 then None
      else Some (word_of_nat (vert div abs_dim b) - 1, word_of_nat (vert mod abs_dim b) - 1))"

definition clone_board_state :: "HexBoard \<Rightarrow> HexBoard \<Rightarrow> HexBoard option" where
  "clone_board_state b other =
     (if get_nodes b = get_nodes other then
        for_each [0..<get_nodes other]
          (\<lambda>i b'. do { k \<leftarrow> get_vertex_key other i; set_vertex_key b' i k }) b
      else None)"

section \<open>aiplayer.hpp: the Monte Carlo player\<close>

text \<open>
  \<^verbatim>\<open>std::shuffle\<close> with the player's random engine is a parameter \<open>shuffle\<close>: from the engine
  state and a list it gives the rearranged list and the next engine state. \<^verbatim>\<open>Player::board\<close>
  is a pointer to the game board, which the player only reads; the board it points to is the
  argument \<open>board\<close> of the operations below.
\<close>

type_synonym 'g shuffle = "'g \<Rightarrow> vertID list \<Rightarrow> vertID list \<times> 'g"

record 'g AIMonteCarloPlayer =
  gen :: 'g
  gcopy :: HexBoard
  trials :: int

definition set_trials :: "'g AIMonteCarloPlayer \<Rightarrow> int \<Rightarrow> 'g AIMonteCarloPlayer" where
  "set_trials ai t = ai\<lparr>trials := t\<rparr>"

text \<open>The filling loop of one trial, with its counter \<open>j\<close>, and the loop that undoes it.\<close>

fun fill_pool :: "HexBoard \<Rightarrow> vertID list \<Rightarrow> nat \<Rightarrow> Color \<Rightarrow> Color \<Rightarrow> HexBoard option" where
  "fill_pool g [] j opp me = Some g"
| "fill_pool g (t # ts) j opp me =
     (case set_vertex_key g t (if j mod 2 = 0 then opp else me) of
        None \<Rightarrow> None
      | Some g' \<Rightarrow> fill_pool g' ts (j + 1) opp me)"

definition undo_pool :: "HexBoard \<Rightarrow> vertID list \<Rightarrow> HexBoard option" where
  "undo_pool g tmp = for_each tmp (\<lambda>p g'. set_vertex_key g' p WHITE) g"

text \<open>The state of the trial loop: the pool \<open>tmp\<close>, the engine, the scratch board, the wins.\<close>

definition trial ::
  "'g shuffle \<Rightarrow> Color \<Rightarrow> Color \<Rightarrow> vertID list \<times> 'g \<times> HexBoard \<times> int \<Rightarrow>
   (vertID list \<times> 'g \<times> HexBoard \<times> int) option" where
  "trial shuffle me opp st =
     (case st of (tmp, g, gc, wins) \<Rightarrow>
        (case shuffle g tmp of (tmp', g') \<Rightarrow> do {
           gc1 \<leftarrow> fill_pool gc tmp' 0 opp me;
           (won, gc2) \<leftarrow> is_victory gc1 me;
           gc3 \<leftarrow> undo_pool gc2 tmp';
           Some (tmp', g', gc3, if won then wins + 1 else wins) }))"

definition simulate ::
  "'g shuffle \<Rightarrow> HexBoard \<Rightarrow> 'g AIMonteCarloPlayer \<Rightarrow> vertID \<Rightarrow> vertID list \<Rightarrow>
   (int \<times> 'g AIMonteCarloPlayer) option" where
  "simulate shuffle board ai curmove fvert =
     (let tmp = filter (\<lambda>p. p \<noteq> curmove) fvert in do {
        gc \<leftarrow> clone_board_state (gcopy ai) board;
        let me = get_current_player_symbol board;
        let opp = (if me = BLUE then RED else BLUE);
        gc \<leftarrow> set_vertex_key gc curmove me;
        (tmp', g', gc', wins) \<leftarrow>
          for_each [0..<nat (trials ai)] (\<lambda>i. trial shuffle me opp) (tmp, gen ai, gc, 0);
        gc'' \<leftarrow> set_vertex_key gc' curmove WHITE;
        Some (wins, ai\<lparr>gen := g', gcopy := gc''\<rparr>) })"

text \<open>
  The selection loop of \<^verbatim>\<open>AIMonteCarloPlayer::play\<close>; its state is the player, \<open>winner\<close> and
  \<open>hiwins\<close>. The progress output is left out.
\<close>

definition consider_move ::
  "'g shuffle \<Rightarrow> HexBoard \<Rightarrow> vertID list \<Rightarrow> vertID \<Rightarrow>
   'g AIMonteCarloPlayer \<times> vertID \<times> int \<Rightarrow> ('g AIMonteCarloPlayer \<times> vertID \<times> int) option" where
  "consider_move shuffle board fvert p st =
     (case st of (ai, winner, hiwins) \<Rightarrow> do {
        (wins, ai') \<leftarrow> simulate shuffle board ai p fvert;
        if wins > hiwins then Some (ai', p, wins) else Some (ai', winner, hiwins) })"

definition ai_play ::
  "'g shuffle \<Rightarrow> HexBoard \<Rightarrow> 'g AIMonteCarloPlayer \<Rightarrow>
   ((c_int \<times> c_int) \<times> 'g AIMonteCarloPlayer) option" where
  "ai_play shuffle board ai = do {
     fvert \<leftarrow> get_free_vertices board;
     if fvert = [] then None
     else do {
       (ai', winner, hiwins) \<leftarrow> for_each fvert (consider_move shuffle board fvert) (ai, 0, 0);
       if winner = 0 then None
       else do { rc \<leftarrow> vertex_to_row_col board winner; Some (rc, ai') } } }"

section \<open>Invariants and notions used in the statements\<close>

declare dfs_loop.simps [simp del]

definition board_inv :: "HexBoard \<Rightarrow> bool" where
  "board_inv b \<longleftrightarrow>
     2 < rel_dim b \<and> abs_dim b = rel_dim b + 2 \<and> abs_dim b * abs_dim b < 2 ^ 32 \<and>
     length (vlist b) = abs_dim b * abs_dim b \<and>
     abs_pos b = \<lparr>ro = 0, co = 0, dim = abs_dim b\<rparr> \<and>
     rel_pos b = \<lparr>ro = 1, co = 1, dim = abs_dim b\<rparr> \<and>
     edges_in_range b"

definition src_vertex :: "HexBoard \<Rightarrow> Color \<Rightarrow> vertID" where
  "src_vertex b symb = (if symb = BLUE then 1 * abs_dim b + 0 else 0 * abs_dim b + 1)"

definition dst_vertex :: "HexBoard \<Rightarrow> Color \<Rightarrow> vertID" where
  "dst_vertex b symb =
     (if symb = BLUE then (abs_dim b - 2) * abs_dim b + (abs_dim b - 1)
      else (abs_dim b - 1) * abs_dim b + (abs_dim b - 2))"

definition in_range :: "HexBoard \<Rightarrow> c_int \<Rightarrow> c_int \<Rightarrow> bool" where
  "in_range b rowi coli \<longleftrightarrow>
     0 \<le> sint rowi \<and> sint rowi < int (rel_dim b) \<and> 0 \<le> sint coli \<and> sint coli < int (rel_dim b)"

definition target :: "HexBoard \<Rightarrow> c_int \<Rightarrow> c_int \<Rightarrow> vertID" where
  "target b rowi coli = (nat (sint rowi) + 1) * abs_dim b + (nat (sint coli) + 1)"

definition place :: "HexBoard \<Rightarrow> vertID \<Rightarrow> Color \<Rightarrow> HexBoard" where
  "place b v c = b\<lparr>vlist := (vlist b)[v := (vlist b ! v)\<lparr>key := c\<rparr>]\<rparr>"

text \<open>The label at absolute (row, col).\<close>

definition label :: "HexBoard \<Rightarrow> nat \<Rightarrow> nat \<Rightarrow> Color" where
  "label b r c = key (vlist b ! (r * abs_dim b + c))"

definition paint_color :: "nat \<Rightarrow> nat \<Rightarrow> nat \<Rightarrow> nat \<Rightarrow> Color" where
  \<comment> \<open>the label of absolute (r, c) after \<open>k\<close> rounds of the colouring loop\<close>
  "paint_color D k r c =
     (if 0 < k \<and> (r = 0 \<or> r = D - 1) \<and> (c = 0 \<or> c = D - 1) then GRAY
      else if (r = 0 \<or> r = D - 1) \<and> c < k then RED
      else if (c = 0 \<or> c = D - 1) \<and> r < k then BLUE
      else WHITE)"

definition repaint :: "nat \<Rightarrow> nat \<Rightarrow> nat \<Rightarrow> nat \<Rightarrow> Color \<Rightarrow> Color" where
  \<comment> \<open>the label of absolute (r, c) after round \<open>k\<close> of the colouring loop, from the one before\<close>
  "repaint D k r c old =
     (if (r = 0 \<or> r = D - 1) \<and> (c = 0 \<or> c = D - 1) then GRAY
      else if r = k \<and> (c = 0 \<or> c = D - 1) then BLUE
      else if (r = 0 \<or> r = D - 1) \<and> c = k then RED
      else old)"

definition painting :: "nat \<Rightarrow> HexBoard \<Rightarrow> bool" where
  \<comment> \<open>what holds of the board all through the colouring loop\<close>
  "painting D b \<longleftrightarrow> abs_dim b = D \<and> abs_pos b = \<lparr>ro = 0, co = 0, dim = D\<rparr> \<and>
     D * D < 2 ^ 32 \<and> length (vlist b) = D * D"

definition nb :: "('v, 'e, 'z) Graph_scheme \<Rightarrow> vertID \<Rightarrow> vertID list" where
  "nb g x = get_neighbors_V (vlist g ! x)"

definition edge_set :: "('v, 'e, 'z) Graph_scheme \<Rightarrow> (vertID \<times> vertID) set" where
  "edge_set g = {(x, y). x < length (vlist g) \<and> y \<in> set (nb g x)}"

definition wired :: "('v, 'e, 'z) Graph_scheme \<Rightarrow> bool" where
  "wired g \<longleftrightarrow> edges_in_range g \<and>
     (\<forall>x < length (vlist g). distinct (nb g x) \<and> (\<forall>y \<in> set (nb g x). x \<in> set (nb g y)))"

definition cell_edges :: "nat \<Rightarrow> nat \<Rightarrow> nat \<Rightarrow> (vertID \<times> vertID) set" where
  \<comment> \<open>the edges that the edge loop adds at absolute (r, c), both ways\<close>
  "cell_edges D r c =
     (if c < D - 1 then {(r * D + c, r * D + (c + 1)), (r * D + (c + 1), r * D + c)} else {}) \<union>
     (if r < D - 1 then {(r * D + c, (r + 1) * D + c), ((r + 1) * D + c, r * D + c)} else {}) \<union>
     (if 0 < c \<and> r < D - 1
      then {(r * D + c, (r + 1) * D + (c - 1)), ((r + 1) * D + (c - 1), r * D + c)} else {})"

definition wiring :: "nat \<Rightarrow> HexBoard \<Rightarrow> bool" where
  "wiring D b \<longleftrightarrow> painting D b \<and> wired b"

definition same_frame :: "HexBoard \<Rightarrow> HexBoard \<Rightarrow> bool" where
  \<comment> \<open>equal but for the vertex list and the edge counter\<close>
  "same_frame b' b \<longleftrightarrow> abs_dim b' = abs_dim b \<and> rel_dim b' = rel_dim b \<and>
     abs_pos b' = abs_pos b \<and> rel_pos b' = rel_pos b \<and> p1_turn b' = p1_turn b"

definition same_keys :: "HexBoard \<Rightarrow> HexBoard \<Rightarrow> bool" where
  "same_keys b' b \<longleftrightarrow> map key (vlist b') = map key (vlist b)"

definition hex_edges :: "nat \<Rightarrow> (vertID \<times> vertID) set" where
  "hex_edges D = (\<Union>r < D. \<Union>c < D. cell_edges D r c)"

definition label_at :: "HexBoard \<Rightarrow> vertID \<Rightarrow> vertID \<Rightarrow> Color option" where
  \<comment> \<open>\<^verbatim>\<open>get_vertex_key(abs_pos(row,col))\<close>\<close>
  "label_at b row col =
     (case Transpose_op (abs_pos b) row col of None \<Rightarrow> None | Some p \<Rightarrow> get_vertex_key b p)"

definition walls :: "HexBoard \<Rightarrow> bool" where
  \<comment> \<open>the corners are \<^verbatim>\<open>GRAY\<close>, the rest of the top and bottom rows \<^verbatim>\<open>RED\<close>, the rest of the
     left and right columns \<^verbatim>\<open>BLUE\<close>\<close>
  "walls b \<longleftrightarrow>
     label_at b 0 0 = Some GRAY \<and> label_at b 0 (abs_dim b - 1) = Some GRAY \<and>
     label_at b (abs_dim b - 1) 0 = Some GRAY \<and>
     label_at b (abs_dim b - 1) (abs_dim b - 1) = Some GRAY \<and>
     (\<forall>c \<in> set [1..<abs_dim b - 1].
        label_at b 0 c = Some RED \<and> label_at b (abs_dim b - 1) c = Some RED) \<and>
     (\<forall>r \<in> set [1..<abs_dim b - 1].
        label_at b r 0 = Some BLUE \<and> label_at b r (abs_dim b - 1) = Some BLUE)"

fun plays :: "HexBoard \<Rightarrow> (c_int \<times> c_int) list \<Rightarrow> HexBoard option" where
  "plays b [] = Some b"
| "plays b ((rowi, coli) # ms) =
     (case play b rowi coli of None \<Rightarrow> None | Some (outcome, b') \<Rightarrow> plays b' ms)"

section \<open>Facts about the graph operations\<close>

lemma u32_le: "u32 n \<le> n"
  by (simp add: u32_def)

lemma u32_id: "n < 2 ^ 32 \<Longrightarrow> u32 n = n"
  by (simp add: u32_def)

lemma validate_vertex_length: "validate_vertex g x \<Longrightarrow> x < length (vlist g)"
  using u32_le [of "length (vlist g)"] by (simp add: validate_vertex_def get_nodes_def)

lemma find_from_none: "n \<notin> neigh ` set es \<Longrightarrow> find_from es n i = -1"
  by (induction es arbitrary: i) auto

lemma find_from_some:
  "n \<in> neigh ` set es \<Longrightarrow>
   i \<le> find_from es n i \<and> nat (find_from es n i - i) < length es \<and>
   neigh (es ! nat (find_from es n i - i)) = n \<and>
   (\<forall>k < nat (find_from es n i - i). neigh (es ! k) \<noteq> n)"
proof (induction es arbitrary: i)
  case Nil
  then show ?case by simp
next
  case (Cons e es)
  show ?case
  proof (cases "neigh e = n")
    case True
    then show ?thesis by simp
  next
    case False
    then have mem: "n \<in> neigh ` set es" using Cons.prems by auto
    from Cons.IH [OF mem, of "i + 1"]
    have ih: "i + 1 \<le> find_from es n (i + 1)"
      "nat (find_from es n (i + 1) - (i + 1)) < length es"
      "neigh (es ! nat (find_from es n (i + 1) - (i + 1))) = n"
      "\<forall>k < nat (find_from es n (i + 1) - (i + 1)). neigh (es ! k) \<noteq> n"
      by auto
    have eq: "nat (find_from es n (i + 1) - i) = Suc (nat (find_from es n (i + 1) - (i + 1)))"
      using ih(1) by linarith
    show ?thesis
      using False ih eq by (auto simp: nth_Cons split: nat.splits)
  qed
qed

lemma is_adjacent_V_iff: "is_adjacent_V v n \<longleftrightarrow> n \<in> set (get_neighbors_V v)"
proof (cases "n \<in> neigh ` set (elist v)")
  case True
  then show ?thesis
    using find_from_some [OF True, of 0] by (simp add: is_adjacent_V_def find_V_def get_neighbors_V_def)
next
  case False
  then show ?thesis
    using find_from_none [OF False, of 0] by (simp add: is_adjacent_V_def find_V_def get_neighbors_V_def)
qed

lemma set_weight_V_Some:
  "n \<in> set (get_neighbors_V v) \<Longrightarrow>
   \<exists>j < length (elist v). neigh (elist v ! j) = n \<and> (\<forall>k < j. neigh (elist v ! k) \<noteq> n) \<and>
     set_weight_V v n w = Some (v\<lparr>elist := (elist v)[j := (elist v ! j)\<lparr>val := w\<rparr>]\<rparr>)"
proof -
  assume "n \<in> set (get_neighbors_V v)"
  then have mem: "n \<in> neigh ` set (elist v)" by (simp add: get_neighbors_V_def)
  from find_from_some [OF mem, of 0] show ?thesis
    by (auto simp: set_weight_V_def find_V_def Let_def)
qed

lemma get_weight_V_Some:
  "n \<in> set (get_neighbors_V v) \<Longrightarrow>
   \<exists>j < length (elist v). neigh (elist v ! j) = n \<and> (\<forall>k < j. neigh (elist v ! k) \<noteq> n) \<and>
     get_weight_V v n = Some (val (elist v ! j))"
proof -
  assume "n \<in> set (get_neighbors_V v)"
  then have mem: "n \<in> neigh ` set (elist v)" by (simp add: get_neighbors_V_def)
  from find_from_some [OF mem, of 0] show ?thesis
    by (auto simp: get_weight_V_def find_V_def Let_def)
qed

lemma map_neigh_update_val: "map neigh (es[j := (es ! j)\<lparr>val := w\<rparr>]) = map neigh es"
  by (cases "j < length es") (simp_all add: map_update list_update_same_conv list_update_beyond)

lemma set_weight_V_neighbors:
  "set_weight_V v n w = Some v' \<Longrightarrow> get_neighbors_V v' = get_neighbors_V v \<and> key v' = key v"
  by (auto simp: set_weight_V_def get_neighbors_V_def Let_def map_neigh_update_val
      split: if_splits)

lemma neigh_edges_to: "map neigh (edges_to v n) = filter (\<lambda>m. m = n) (get_neighbors_V v)"
  by (simp add: edges_to_def get_neighbors_V_def filter_map comp_def)

lemma edges_to_empty_iff: "edges_to v n = [] \<longleftrightarrow> \<not> is_adjacent_V v n"
  by (auto simp: is_adjacent_V_iff edges_to_def get_neighbors_V_def filter_empty_conv)

lemma edges_to_add_V:
  "edges_to (add_V v n w) m = edges_to v m @ (if m = n then [\<lparr>neigh = n, val = w\<rparr>] else [])"
  by (simp add: edges_to_def add_V_def)



lemma get_weight_V_single:
  assumes "map val (edges_to v n) = [w]"
  shows "get_weight_V v n = Some w"
proof -
  have "edges_to v n \<noteq> []" using assms by auto
  then have "n \<in> set (get_neighbors_V v)" by (simp add: edges_to_empty_iff is_adjacent_V_iff)
  from get_weight_V_Some [OF this] obtain j where j: "j < length (elist v)"
    "neigh (elist v ! j) = n" "get_weight_V v n = Some (val (elist v ! j))" by blast
  then have "elist v ! j \<in> set (edges_to v n)" by (simp add: edges_to_def)
  then have "val (elist v ! j) \<in> set (map val (edges_to v n))" by simp
  then show ?thesis using assms j(3) by simp
qed



lemma get_edge_weight_single:
  "validate_vertices g x y \<Longrightarrow> weights_between g x y = [w] \<Longrightarrow> get_edge_weight g x y = Some w"
  by (simp add: get_edge_weight_def get_weight_V_single weights_between_def)



lemma add_edge_fresh:
  assumes val: "validate_vertices g x y" and ne: "x \<noteq> y"
    and x0: "\<not> is_adjacent_V (vlist g ! x) y" and y0: "\<not> is_adjacent_V (vlist g ! y) x"
  obtains g' where "add_edge g x y w = Some g'" and "validate_vertices g' x y"
    and "weights_between g' x y = [w]" and "weights_between g' y x = [w]"
proof -
  have lx: "x < length (vlist g)" and ly: "y < length (vlist g)"
    using val by (simp_all add: validate_vertices_def validate_vertex_length)
  let ?g' = "g\<lparr>vlist := (vlist g)[x := add_V (vlist g ! x) y w, y := add_V (vlist g ! y) x w],
               nedges := u32 (nedges g + 1)\<rparr>"
  have "add_edge g x y w = Some ?g'"
    using val x0 ne lx ly by (simp add: add_edge_def is_adjacent_def Let_def)
  moreover have "validate_vertices ?g' x y"
    using val by (simp add: validate_vertices_def validate_vertex_def get_nodes_def)
  moreover have "weights_between ?g' x y = [w]"
    using x0 ne lx ly
    by (simp add: weights_between_def edges_to_add_V edges_to_empty_iff [symmetric])
  moreover have "weights_between ?g' y x = [w]"
    using y0 ne lx ly
    by (simp add: weights_between_def edges_to_add_V edges_to_empty_iff [symmetric])
  ultimately show thesis by (rule that)
qed

lemma set_edge_weight_frame:
  assumes "set_edge_weight g a b w = Some g'"
  shows "length (vlist g') = length (vlist g) \<and> nedges g' = nedges g \<and>
         (\<forall>x < length (vlist g). key (vlist g' ! x) = key (vlist g ! x) \<and>
            get_neighbors_V (vlist g' ! x) = get_neighbors_V (vlist g ! x))"
proof -
  from assms have val: "validate_vertices g a b"
    by (simp add: set_edge_weight_def split: if_splits)
  then have la: "a < length (vlist g)" and lb: "b < length (vlist g)"
    by (simp_all add: validate_vertices_def validate_vertex_length)
  from assms val obtain va where va: "set_weight_V (vlist g ! a) b w = Some va"
    by (auto simp: set_edge_weight_def split: option.splits)
  let ?l1 = "(vlist g)[a := va]"
  from assms val va obtain vb where vb: "set_weight_V (?l1 ! b) a w = Some vb"
    and g': "g' = g\<lparr>vlist := ?l1[b := vb]\<rparr>"
    by (auto simp: set_edge_weight_def Let_def split: option.splits)
  have na: "get_neighbors_V va = get_neighbors_V (vlist g ! a)" "key va = key (vlist g ! a)"
    using set_weight_V_neighbors [OF va] by simp_all
  have nb: "get_neighbors_V vb = get_neighbors_V (?l1 ! b)" "key vb = key (?l1 ! b)"
    using set_weight_V_neighbors [OF vb] by simp_all
  have "\<forall>x < length (vlist g). key ((?l1[b := vb]) ! x) = key (vlist g ! x) \<and>
          get_neighbors_V ((?l1[b := vb]) ! x) = get_neighbors_V (vlist g ! x)"
    using la lb na nb by (auto simp: nth_list_update)
  then show ?thesis using g' by simp
qed

lemma add_edge_frame:
  assumes "add_edge g a b w = Some g'"
  shows "length (vlist g') = length (vlist g) \<and>
         (\<forall>x < length (vlist g). key (vlist g' ! x) = key (vlist g ! x) \<and>
            get_neighbors_V (vlist g' ! x) =
              get_neighbors_V (vlist g ! x) @
              (if is_adjacent_V (vlist g ! a) b then [] else new_neighbors a b x))"
proof -
  from assms have val: "validate_vertices g a b"
    by (simp add: add_edge_def split: if_splits)
  then have la: "a < length (vlist g)" and lb: "b < length (vlist g)"
    by (simp_all add: validate_vertices_def validate_vertex_length)
  show ?thesis
  proof (cases "is_adjacent_V (vlist g ! a) b")
    case True
    then have "set_edge_weight g a b w = Some g'"
      using assms val by (simp add: add_edge_def is_adjacent_def)
    from set_edge_weight_frame [OF this] True show ?thesis by simp
  next
    case False
    then have "g' = g\<lparr>vlist := (vlist g)[a := add_V (vlist g ! a) b w,
          b := add_V ((vlist g)[a := add_V (vlist g ! a) b w] ! b) a w],
          nedges := u32 (nedges g + 1)\<rparr>"
      using assms val by (simp add: add_edge_def is_adjacent_def Let_def)
    then show ?thesis
      using False la lb
      by (auto simp: nth_list_update new_neighbors_def add_V_def get_neighbors_V_def)
  qed
qed

lemma length_edges_to: "length (edges_to v n) = length (filter (\<lambda>m. m = n) (get_neighbors_V v))"
  by (metis neigh_edges_to length_map)


lemma simple_graph_clear: "simple_graph (clear g)"
  by (simp add: simple_graph_def clear_def)

lemma edges_in_range_nth:
  "edges_in_range g \<Longrightarrow> x < length (vlist g) \<Longrightarrow> m \<in> set (get_neighbors_V (vlist g ! x)) \<Longrightarrow>
   m < length (vlist g)"
  unfolding edges_in_range_def using nth_mem by blast

lemma edges_in_range_I:
  assumes "\<And>x m. x < length (vlist g) \<Longrightarrow> m \<in> set (get_neighbors_V (vlist g ! x)) \<Longrightarrow>
     m < length (vlist g)"
  shows "edges_in_range g"
  unfolding edges_in_range_def using assms by (metis in_set_conv_nth)

lemma simple_graph_cong:
  assumes "length (vlist g') = length (vlist g)"
    and "\<forall>x < length (vlist g). get_neighbors_V (vlist g' ! x) = get_neighbors_V (vlist g ! x)"
    and "simple_graph g"
  shows "simple_graph g'"
  using assms unfolding simple_graph_def by (simp add: length_edges_to is_adjacent_V_iff)

lemma edges_in_range_cong:
  assumes len: "length (vlist g') = length (vlist g)"
    and nb: "\<forall>x < length (vlist g). get_neighbors_V (vlist g' ! x) = get_neighbors_V (vlist g ! x)"
    and er: "edges_in_range g"
  shows "edges_in_range g'"
proof (rule edges_in_range_I)
  fix x m assume "x < length (vlist g')" and "m \<in> set (get_neighbors_V (vlist g' ! x))"
  then have "x < length (vlist g)" "m \<in> set (get_neighbors_V (vlist g ! x))"
    using len nb by simp_all
  then show "m < length (vlist g')" using edges_in_range_nth [OF er] len by simp
qed

lemma set_vertex_key_frame:
  assumes "set_vertex_key g x k = Some g'"
  shows "length (vlist g') = length (vlist g) \<and> nedges g' = nedges g \<and>
         (\<forall>y < length (vlist g). key (vlist g' ! y) = (if y = x then k else key (vlist g ! y)) \<and>
            elist (vlist g' ! y) = elist (vlist g ! y))"
  using assms by (auto simp: set_vertex_key_def nth_list_update split: if_splits)

lemma set_vertex_key_neighbors:
  assumes "set_vertex_key g x k = Some g'"
  shows "\<forall>y < length (vlist g). get_neighbors_V (vlist g' ! y) = get_neighbors_V (vlist g ! y)"
  using set_vertex_key_frame [OF assms] by (simp add: get_neighbors_V_def)

lemma set_vertex_key_length:
  "set_vertex_key g x k = Some g' \<Longrightarrow> length (vlist g') = length (vlist g)"
  by (simp add: set_vertex_key_frame)

lemma simple_graph_set_vertex_key:
  assumes "simple_graph g" and "set_vertex_key g x k = Some g'"
  shows "simple_graph g'"
  by (rule simple_graph_cong [OF set_vertex_key_length [OF assms(2)]
        set_vertex_key_neighbors [OF assms(2)] assms(1)])

lemma edges_in_range_set_vertex_key:
  assumes "edges_in_range g" and "set_vertex_key g x k = Some g'"
  shows "edges_in_range g'"
  by (rule edges_in_range_cong [OF set_vertex_key_length [OF assms(2)]
        set_vertex_key_neighbors [OF assms(2)] assms(1)])



lemma simple_graph_set_edge_weight:
  assumes "simple_graph g" and "set_edge_weight g a b w = Some g'"
  shows "simple_graph g'"
  using assms(1) set_edge_weight_frame [OF assms(2)]
  unfolding simple_graph_def by (simp add: length_edges_to is_adjacent_V_iff)


lemma edges_in_range_set_edge_weight:
  assumes "edges_in_range g" and "set_edge_weight g a b w = Some g'"
  shows "edges_in_range g'"
proof -
  from set_edge_weight_frame [OF assms(2)]
  have len: "length (vlist g') = length (vlist g)"
    and nb: "\<forall>x < length (vlist g). get_neighbors_V (vlist g' ! x) = get_neighbors_V (vlist g ! x)"
    by simp_all
  show ?thesis by (rule edges_in_range_cong [OF len nb assms(1)])
qed

lemma edges_in_range_add_edge:
  assumes er: "edges_in_range g" and ae: "add_edge g a b w = Some g'"
  shows "edges_in_range g'"
proof (rule edges_in_range_I)
  note fr = add_edge_frame [OF ae]
  from ae have val: "validate_vertices g a b"
    by (simp add: add_edge_def split: if_splits)
  then have la: "a < length (vlist g)" and lb: "b < length (vlist g)"
    by (simp_all add: validate_vertices_def validate_vertex_length)
  fix x m assume "x < length (vlist g')" and m: "m \<in> set (get_neighbors_V (vlist g' ! x))"
  then have lx: "x < length (vlist g)" using fr by simp
  then have "m \<in> set (get_neighbors_V (vlist g ! x)) \<or> m \<in> set (new_neighbors a b x)"
    using fr m by (auto split: if_splits)
  then have "m < length (vlist g)"
    using edges_in_range_nth [OF er lx] la lb by (auto simp: new_neighbors_def split: if_splits)
  then show "m < length (vlist g')" using fr by simp
qed

section \<open>Facts about the board operations\<close>

lemma uint_sint_cases:
  fixes w :: "32 word"
  shows "uint w = (if sint w < 0 then sint w + 2 ^ 32 else sint w)"
proof -
  have lo: "- (2 ^ 31) \<le> sint w" and hi: "sint w < 2 ^ 31"
    using sint_ge [of w] sint_lt [of w] by simp_all
  have u: "uint w = sint w mod 2 ^ 32"
    using uint_sint [of w] by (simp add: take_bit_eq_mod)
  show ?thesis
  proof (cases "sint w < 0")
    case True
    have "sint w mod 2 ^ 32 = (sint w + 2 ^ 32) mod 2 ^ 32" by simp
    also have "\<dots> = sint w + 2 ^ 32" using lo True by (intro mod_pos_pos_trivial) simp_all
    finally show ?thesis using u True by simp
  next
    case False
    then have "sint w mod 2 ^ 32 = sint w" using hi by (intro mod_pos_pos_trivial) simp_all
    then show ?thesis using u False by simp
  qed
qed

lemma sint_range_unat:
  fixes w :: "32 word"
  assumes "n \<le> 2 ^ 31"
  shows "(0 \<le> sint w \<and> sint w < int n) \<longleftrightarrow> unat w < n"
proof -
  define u s where "u = unat w" and "s = sint w"
  have lo: "- (2 ^ 31) \<le> s" using sint_ge [of w] by (simp add: s_def)
  have iu: "int u = (if s < 0 then s + 2 ^ 32 else s)"
    using uint_sint_cases [of w] by (simp add: u_def s_def)
  have "(0 \<le> s \<and> s < int n) \<longleftrightarrow> u < n"
    using iu lo assms by (cases "s < 0") (simp_all, linarith+)
  then show ?thesis by (simp add: u_def s_def)
qed

lemma wrap_sub: "b \<le> a \<Longrightarrow> a < M \<Longrightarrow> (a + M - b) mod M = a - (b :: nat)"
proof -
  assume "b \<le> a" and lt: "a < M"
  then have "a + M - b = (a - b) + M" by arith
  then have "(a + M - b) mod M = (a - b) mod M" by simp
  then show ?thesis using lt by simp
qed

lemma usub_eq: "b \<le> a \<Longrightarrow> a < 2 ^ 32 \<Longrightarrow> usub a b = a - b"
  unfolding usub_def by (rule wrap_sub)

lemma square_less: "D * D < K * K \<Longrightarrow> D < (K :: nat)"
  by (metis not_less mult_le_mono)

lemma square_bound: "D * D < 2 ^ 32 \<Longrightarrow> (D :: nat) < 2 ^ 16"
proof -
  have "(2 :: nat) ^ 32 = 2 ^ 16 * 2 ^ 16" by (simp only: power_add [symmetric]) simp
  then show "D * D < 2 ^ 32 \<Longrightarrow> D < 2 ^ 16" using square_less [of D "2 ^ 16"] by simp
qed

lemma cell_less: "r < D \<Longrightarrow> c < D \<Longrightarrow> r * D + c < D * (D :: nat)"
proof -
  assume r: "r < D" and c: "c < D"
  have "r * D + c < r * D + D" using c by simp
  also have "\<dots> = Suc r * D" by simp
  also have "\<dots> \<le> D * D" using r by (metis Suc_leI mult_le_mono1)
  finally show ?thesis .
qed

lemma board_invD:
  assumes "board_inv b"
  shows "2 < rel_dim b" and "abs_dim b = rel_dim b + 2" and "abs_dim b * abs_dim b < 2 ^ 32"
    and "length (vlist b) = abs_dim b * abs_dim b"
    and "abs_pos b = \<lparr>ro = 0, co = 0, dim = abs_dim b\<rparr>"
    and "rel_pos b = \<lparr>ro = 1, co = 1, dim = abs_dim b\<rparr>"
    and "edges_in_range b"
proof -
  have c: "2 < rel_dim b \<and> abs_dim b = rel_dim b + 2 \<and> abs_dim b * abs_dim b < 2 ^ 32 \<and>
     length (vlist b) = abs_dim b * abs_dim b \<and>
     abs_pos b = \<lparr>ro = 0, co = 0, dim = abs_dim b\<rparr> \<and>
     rel_pos b = \<lparr>ro = 1, co = 1, dim = abs_dim b\<rparr> \<and>
     edges_in_range b"
    using assms unfolding board_inv_def .
  show "2 < rel_dim b" using c by (elim conjE)
  show "abs_dim b = rel_dim b + 2" using c by (elim conjE)
  show "abs_dim b * abs_dim b < 2 ^ 32" using c by (elim conjE)
  show "length (vlist b) = abs_dim b * abs_dim b" using c by (elim conjE)
  show "abs_pos b = \<lparr>ro = 0, co = 0, dim = abs_dim b\<rparr>" using c by (elim conjE)
  show "rel_pos b = \<lparr>ro = 1, co = 1, dim = abs_dim b\<rparr>" using c by (elim conjE)
  show "edges_in_range b" using c by (elim conjE)
qed

lemma board_inv_dim:
  assumes "board_inv b"
  shows "abs_dim b < 2 ^ 16" and "4 < abs_dim b" and "rel_dim b < 2 ^ 16"
    and "abs_dim b < 2 ^ 32" and "rel_dim b \<le> 2 ^ 31"
proof -
  note inv = board_invD [OF assms]
  show d: "abs_dim b < 2 ^ 16" using inv(3) by (rule square_bound)
  show "4 < abs_dim b" using inv(1,2) by linarith
  show r: "rel_dim b < 2 ^ 16" using inv(2) d by linarith
  show "abs_dim b < 2 ^ 32" using d by simp
  show "rel_dim b \<le> 2 ^ 31" using r by simp
qed

lemma board_inv_nodes: "board_inv b \<Longrightarrow> get_nodes b = abs_dim b * abs_dim b"
  using board_invD(3,4) [of b] by (simp add: get_nodes_def u32_id)

lemma board_inv_nodes_length: "board_inv b \<Longrightarrow> get_nodes b = length (vlist b)"
  using board_invD(3,4) [of b] by (simp add: get_nodes_def u32_id)

lemma abs_pos_Some:
  assumes "board_inv b" and "r < abs_dim b" and "c < abs_dim b"
  shows "Transpose_op (abs_pos b) r c = Some (r * abs_dim b + c)"
proof -
  note inv = board_invD [OF assms(1)]
  have lt: "r * abs_dim b + c < abs_dim b * abs_dim b" using assms(2,3) by (rule cell_less)
  then have "u32 (r * abs_dim b + c) = r * abs_dim b + c"
    "u32 (abs_dim b * abs_dim b) = abs_dim b * abs_dim b"
    using inv(3) by (simp_all add: u32_id)
  then show ?thesis using lt by (simp add: Transpose_op_def inv(5))
qed

lemma rel_pos_Some:
  assumes "board_inv b" and "r < rel_dim b" and "c < rel_dim b"
  shows "Transpose_op (rel_pos b) r c = Some (Suc r * abs_dim b + Suc c)"
proof -
  note inv = board_invD [OF assms(1)]
  have "Suc r < abs_dim b" "Suc c < abs_dim b" using assms(2,3) inv(2) by simp_all
  then have lt: "Suc r * abs_dim b + Suc c < abs_dim b * abs_dim b" by (rule cell_less)
  then have "u32 (Suc r * abs_dim b + Suc c) = Suc r * abs_dim b + Suc c"
    "u32 (abs_dim b * abs_dim b) = abs_dim b * abs_dim b"
    using inv(3) by (simp_all add: u32_id)
  then show ?thesis using lt by (simp add: Transpose_op_def inv(6))
qed

lemma get_vertex_key_Some:
  "x < get_nodes g \<Longrightarrow> get_vertex_key g x = Some (key (vlist g ! x))"
  by (simp add: get_vertex_key_def validate_vertex_def)

lemma scan_neigh_total:
  "length visited = get_nodes b \<Longrightarrow> \<forall>p \<in> set ps. p < length visited \<Longrightarrow>
   scan_neigh b symb dst ps visited stack \<noteq> None"
proof (induction ps arbitrary: visited stack)
  case Nil
  then show ?case by simp
next
  case (Cons p ps)
  have p: "p < get_nodes b" using Cons.prems by simp
  have len: "length (visited[p := True]) = get_nodes b" using Cons.prems(1) by simp
  have rest: "\<forall>q \<in> set ps. q < length (visited[p := True])" using Cons.prems(2) by simp
  have rest': "\<forall>q \<in> set ps. q < length visited" using Cons.prems(2) by simp
  show ?case
    using Cons.IH [OF len rest] Cons.IH [OF Cons.prems(1) rest'] Cons.prems(2)
    by (simp add: get_vertex_key_Some [OF p])
qed

lemma scan_neigh_Pending:
  "scan_neigh b symb dst ps visited stack = Some (Pending visited' stack') \<Longrightarrow>
   length visited' = length visited \<and> set stack' \<subseteq> set stack \<union> set ps"
proof (induction ps arbitrary: visited stack)
  case Nil
  then show ?case by simp
next
  case (Cons p ps)
  show ?case
  proof (cases "p \<noteq> dst \<and> p < length visited \<and> \<not> visited ! p")
    case True
    then obtain k where k: "get_vertex_key b p = Some k"
      using Cons.prems by (auto split: option.splits)
    have "scan_neigh b symb dst ps (visited[p := True]) (if k = symb then p # stack else stack)
        = Some (Pending visited' stack')"
      using Cons.prems True k by simp
    from Cons.IH [OF this] show ?thesis by (auto split: if_splits)
  next
    case False
    then have "scan_neigh b symb dst ps visited stack = Some (Pending visited' stack')"
      using Cons.prems by (auto split: if_splits)
    from Cons.IH [OF this] show ?thesis by auto
  qed
qed

lemma dfs_loop_Nil: "dfs_loop b symb dst visited [] = Some (False, b)"
  by (subst dfs_loop.simps) simp

lemma dfs_loop_Cons:
  "dfs_loop b symb dst visited (topv # rest) =
     (case get_neighbors b topv of
        None \<Rightarrow> None
      | Some ns \<Rightarrow>
          (case scan_neigh b symb dst ns visited rest of
             None \<Rightarrow> None
           | Some Found \<Rightarrow> Some (True, b)
           | Some (Pending visited' stack') \<Rightarrow> dfs_loop b symb dst visited' stack'))"
  by (subst dfs_loop.simps) simp

lemma dfs_loop_board: "dfs_loop b symb dst visited stack = Some (r, b') \<Longrightarrow> b' = b"
proof (induction b symb dst visited stack rule: dfs_loop.induct)
  case (1 b symb dst visited stack)
  show ?case
  proof (cases stack)
    case Nil
    then show ?thesis using "1.prems" by (simp add: dfs_loop_Nil)
  next
    case (Cons topv rest)
    then obtain ns where ns: "get_neighbors b topv = Some ns"
      using "1.prems" by (auto simp: dfs_loop_Cons split: option.splits)
    then obtain sc where sc: "scan_neigh b symb dst ns visited rest = Some sc"
      using "1.prems" Cons
      by (auto simp: dfs_loop_Cons split: option.splits)
    show ?thesis
    proof (cases sc)
      case Found
      then show ?thesis
        using "1.prems" Cons ns sc by (simp add: dfs_loop_Cons)
    next
      case (Pending visited' stack')
      then have "dfs_loop b symb dst visited' stack' = Some (r, b')"
        using "1.prems" Cons ns sc by (simp add: dfs_loop_Cons)
      then show ?thesis by (rule "1.IH" [OF Cons ns sc Pending])
    qed
  qed
qed

lemma get_neighbors_Some:
  "v < length (vlist g) \<Longrightarrow> get_neighbors g v = Some (get_neighbors_V (vlist g ! v))"
  by (simp add: get_neighbors_def)

lemma dfs_loop_total:
  "edges_in_range b \<Longrightarrow> get_nodes b = length (vlist b) \<Longrightarrow> length visited = length (vlist b) \<Longrightarrow>
   \<forall>s \<in> set stack. s < length (vlist b) \<Longrightarrow> dfs_loop b symb dst visited stack \<noteq> None"
proof (induction b symb dst visited stack rule: dfs_loop.induct)
  case (1 b symb dst visited stack)
  show ?case
  proof (cases stack)
    case Nil
    then show ?thesis by (simp add: dfs_loop_Nil)
  next
    case (Cons topv rest)
    then have t: "topv < length (vlist b)" using "1.prems"(4) by simp
    let ?ns = "get_neighbors_V (vlist b ! topv)"
    have ns: "get_neighbors b topv = Some ?ns" using t by (rule get_neighbors_Some)
    have inr: "\<forall>p \<in> set ?ns. p < length visited"
      using edges_in_range_nth [OF "1.prems"(1) t] "1.prems"(3) by simp
    have lv: "length visited = get_nodes b" using "1.prems"(2,3) by simp
    from scan_neigh_total [OF lv inr, of symb dst rest]
    obtain sc where sc: "scan_neigh b symb dst ?ns visited rest = Some sc" by auto
    show ?thesis
    proof (cases sc)
      case Found
      then show ?thesis
        using Cons ns sc by (simp add: dfs_loop_Cons)
    next
      case (Pending visited' stack')
      from scan_neigh_Pending [OF sc [unfolded Pending]]
      have l': "length visited' = length visited" and sub: "set stack' \<subseteq> set rest \<union> set ?ns"
        by simp_all
      have st: "\<forall>s \<in> set stack'. s < length (vlist b)"
        using sub inr "1.prems"(3,4) Cons by auto
      have "dfs_loop b symb dst visited' stack' \<noteq> None"
        using "1.IH" [OF Cons ns sc Pending "1.prems"(1,2) _ st] l' "1.prems"(3) by simp
      then show ?thesis
        using Cons ns sc Pending by (simp add: dfs_loop_Cons)
    qed
  qed
qed

lemma is_victory_board: "is_victory b symb = Some (r, b') \<Longrightarrow> b' = b"
  by (auto simp: is_victory_def dfs_loop_board split: if_splits Option.bind_splits)

lemma src_dst_less:
  assumes "board_inv b"
  shows "src_vertex b symb < length (vlist b)" and "dst_vertex b symb < length (vlist b)"
proof -
  note inv = board_invD [OF assms] and dm = board_inv_dim [OF assms]
  let ?D = "abs_dim b"
  have "1 * ?D + 0 < ?D * ?D" "0 * ?D + 1 < ?D * ?D"
    "(?D - 2) * ?D + (?D - 1) < ?D * ?D" "(?D - 1) * ?D + (?D - 2) < ?D * ?D"
    using dm(2) by (intro cell_less; simp)+
  then show "src_vertex b symb < length (vlist b)" "dst_vertex b symb < length (vlist b)"
    unfolding src_vertex_def dst_vertex_def inv(4) by simp_all
qed

lemma is_victory_unfold:
  assumes "board_inv b"
  shows "is_victory b symb =
    dfs_loop b symb (dst_vertex b symb) (replicate (length (vlist b)) False) [src_vertex b symb]"
proof -
  note inv = board_invD [OF assms] and dm = board_inv_dim [OF assms]
  let ?D = "abs_dim b"
  have s1: "Transpose_op (abs_pos b) 1 0 = Some (1 * ?D + 0)"
    and s2: "Transpose_op (abs_pos b) 0 1 = Some (0 * ?D + 1)"
    using dm(2) by (intro abs_pos_Some [OF assms]; simp)+
  have u1: "usub ?D 1 = ?D - 1" and u2: "usub ?D 2 = ?D - 2"
    using dm(2,4) by (intro usub_eq; simp)+
  have d1: "Transpose_op (abs_pos b) (?D - 2) (?D - 1) = Some ((?D - 2) * ?D + (?D - 1))"
    and d2: "Transpose_op (abs_pos b) (?D - 1) (?D - 2) = Some ((?D - 1) * ?D + (?D - 2))"
    using dm(2) by (intro abs_pos_Some [OF assms]; simp)+
  have gn: "get_nodes b = length (vlist b)" using assms by (rule board_inv_nodes_length)
  show ?thesis
    unfolding is_victory_def u1 u2 gn src_vertex_def dst_vertex_def
    by (cases "symb = BLUE") (simp_all only: s1 s2 d1 d2, simp_all)
qed

lemma is_victory_total:
  assumes "board_inv b"
  shows "\<exists>r. is_victory b symb = Some (r, b)"
proof -
  note inv = board_invD [OF assms]
  have gn: "get_nodes b = length (vlist b)" using assms by (rule board_inv_nodes_length)
  have "dfs_loop b symb (dst_vertex b symb) (replicate (length (vlist b)) False)
      [src_vertex b symb] \<noteq> None"
    using src_dst_less(1) [OF assms, of symb] by (intro dfs_loop_total [OF inv(7) gn]) simp_all
  then obtain r b' where r: "is_victory b symb = Some (r, b')"
    unfolding is_victory_unfold [OF assms] by auto
  then have "b' = b" by (rule is_victory_board)
  then show ?thesis using r by simp
qed

lemma set_vertex_key_place:
  "v < get_nodes b \<Longrightarrow> set_vertex_key b v c = Some (place b v c)"
  by (simp add: set_vertex_key_def validate_vertex_def place_def)

lemma set_vertex_key_SomeD:
  "set_vertex_key b v c = Some b' \<Longrightarrow> v < get_nodes b \<and> b' = place b v c"
  by (simp add: set_vertex_key_def validate_vertex_def place_def split: if_splits)

lemma edges_in_range_place: "edges_in_range b \<Longrightarrow> edges_in_range (place b v c)"
proof (rule edges_in_range_I)
  fix x m assume er: "edges_in_range b" and x: "x < length (vlist (place b v c))"
    and m: "m \<in> set (get_neighbors_V (vlist (place b v c) ! x))"
  have lx: "x < length (vlist b)" using x by (simp add: place_def)
  have "get_neighbors_V (vlist (place b v c) ! x) = get_neighbors_V (vlist b ! x)"
    using lx by (cases "x = v") (simp_all add: place_def get_neighbors_V_def)
  then show "m < length (vlist (place b v c))"
    using edges_in_range_nth [OF er lx, of m] m by (simp add: place_def)
qed

lemma board_inv_cong:
  assumes inv: "board_inv b" and er: "edges_in_range b'"
    and eq: "rel_dim b' = rel_dim b" "abs_dim b' = abs_dim b" "abs_pos b' = abs_pos b"
      "rel_pos b' = rel_pos b" "length (vlist b') = length (vlist b)"
  shows "board_inv b'"
  unfolding board_inv_def eq by (intro conjI board_invD(1-6) [OF inv] er)

lemma board_inv_place:
  assumes "board_inv b"
  shows "board_inv (place b v c)"
proof (rule board_inv_cong [OF assms])
  show "edges_in_range (place b v c)"
    using board_invD(7) [OF assms] by (rule edges_in_range_place)
qed (simp_all add: place_def)

lemma in_range_unat:
  assumes "board_inv b"
  shows "in_range b rowi coli \<longleftrightarrow> unat rowi < rel_dim b \<and> unat coli < rel_dim b"
  using sint_range_unat [OF board_inv_dim(5) [OF assms], of rowi]
    sint_range_unat [OF board_inv_dim(5) [OF assms], of coli]
  unfolding in_range_def by blast

lemma target_unat:
  assumes "in_range b rowi coli"
  shows "target b rowi coli = Suc (unat rowi) * abs_dim b + Suc (unat coli)"
proof -
  have "uint rowi = sint rowi" "uint coli = sint coli"
    using assms uint_sint_cases [of rowi] uint_sint_cases [of coli] by (simp_all add: in_range_def)
  then have "nat (sint rowi) = nat (uint rowi)" "nat (sint coli) = nat (uint coli)"
    by (simp_all only:)
  then have "nat (sint rowi) = unat rowi" "nat (sint coli) = unat coli"
    by (simp_all only: unat_eq_nat_uint)
  then show ?thesis by (simp add: target_def)
qed

lemma target_less:
  assumes "board_inv b" and "in_range b rowi coli"
  shows "target b rowi coli < get_nodes b"
proof -
  have "unat rowi < rel_dim b" "unat coli < rel_dim b"
    using assms in_range_unat by simp_all
  then have "Suc (unat rowi) < abs_dim b" "Suc (unat coli) < abs_dim b"
    using board_invD(2) [OF assms(1)] by simp_all
  then have "Suc (unat rowi) * abs_dim b + Suc (unat coli) < abs_dim b * abs_dim b"
    by (rule cell_less)
  then show ?thesis by (simp add: target_unat [OF assms(2)] board_inv_nodes [OF assms(1)])
qed

lemma play_out_of_bounds:
  assumes "board_inv b" and "\<not> in_range b rowi coli"
  shows "play b rowi coli = Some (OOB_ERROR, b)"
  using assms in_range_unat [OF assms(1), of rowi coli] by (simp add: play_def Let_def)

lemma play_in_range:
  assumes inv: "board_inv b" and ir: "in_range b rowi coli"
  shows "play b rowi coli =
    (if key (vlist b ! target b rowi coli) \<noteq> WHITE then Some (OCC_ERROR, b)
     else do {
       (won, b2) \<leftarrow> is_victory (place b (target b rowi coli) (if p1_turn b then BLUE else RED))
                      (if p1_turn b then BLUE else RED);
       if won then Some (if p1_turn b2 then P1_WIN else P2_WIN, b2)
       else Some (NO_WIN, b2\<lparr>p1_turn := \<not> p1_turn b2\<rparr>) })"
proof -
  have rc: "unat rowi < rel_dim b" "unat coli < rel_dim b"
    using inv ir in_range_unat by simp_all
  have tp: "Transpose_op (rel_pos b) (unat rowi) (unat coli) = Some (target b rowi coli)"
    using rel_pos_Some [OF inv rc] by (simp add: target_unat [OF ir])
  have tl: "target b rowi coli < get_nodes b" using inv ir by (rule target_less)
  have turn: "get_current_player_symbol (place b v c) = (if p1_turn b then BLUE else RED)" for v c
    by (simp add: get_current_player_symbol_def place_def)
  show ?thesis
    using rc
    by (simp add: play_def Let_def tp get_vertex_key_Some [OF tl] set_vertex_key_place [OF tl] turn)
qed

lemma for_each_append:
  "for_each (xs @ ys) body s = (case for_each xs body s of None \<Rightarrow> None | Some s' \<Rightarrow> for_each ys body s')"
  by (induction xs arbitrary: s) (auto split: option.splits)

lemma for_each_upt_invariant:
  assumes "P 0 s" and "\<And>i s. i < n \<Longrightarrow> P i s \<Longrightarrow> \<exists>s'. body i s = Some s' \<and> P (Suc i) s'"
  shows "\<exists>s'. for_each [0..<n] body s = Some s' \<and> P n s'"
  using assms(2)
proof (induction n)
  case 0
  then show ?case using assms(1) by simp
next
  case (Suc n)
  have "\<exists>s'. for_each [0..<n] body s = Some s' \<and> P n s'"
    by (rule Suc.IH) (simp add: Suc.prems)
  then obtain s1 where s1: "for_each [0..<n] body s = Some s1" "P n s1" by auto
  from Suc.prems [of n s1] s1(2) obtain s2 where s2: "body n s1 = Some s2" "P (Suc n) s2"
    by auto
  show ?case using s1(1) s2 by (simp add: for_each_append)
qed

lemma add_vertices:
  "for_each xs (\<lambda>i b. Some (add_vertex b k)) g =
   Some (g\<lparr>vlist := vlist g @ replicate (length xs) \<lparr>key = k, elist = []\<rparr>\<rparr>)"
proof (induction xs arbitrary: g)
  case Nil
  then show ?case by simp
next
  case (Cons x xs)
  have "for_each (x # xs) (\<lambda>i b. Some (add_vertex b k)) g =
      for_each xs (\<lambda>i b. Some (add_vertex b k)) (add_vertex g k)" by simp
  also have "\<dots> = Some ((add_vertex g k)\<lparr>vlist := vlist (add_vertex g k) @
      replicate (length xs) \<lparr>key = k, elist = []\<rparr>\<rparr>)" by (rule Cons.IH)
  finally show ?case by (simp add: add_vertex_def)
qed

lemma cell_inj:
  "c < D \<Longrightarrow> c' < D \<Longrightarrow> r * D + c = r' * D + c' \<longleftrightarrow> r = r' \<and> c = (c' :: nat)"
proof
  assume c: "c < D" and c': "c' < D" and eq: "r * D + c = r' * D + c'"
  have "(r * D + c) div D = r" "(r' * D + c') div D = r'" using c c' by simp_all
  then have r: "r = r'" using eq by simp
  then show "r = r' \<and> c = c'" using eq by simp
qed simp

lemma label_place:
  assumes "r < abs_dim b" "c < abs_dim b" "r' < abs_dim b" "c' < abs_dim b"
    and "length (vlist b) = abs_dim b * abs_dim b"
  shows "label (place b (r' * abs_dim b + c') k) r c = (if r = r' \<and> c = c' then k else label b r c)"
proof -
  have lt: "r * abs_dim b + c < length (vlist b)" using assms by (simp add: cell_less)
  have "r * abs_dim b + c = r' * abs_dim b + c' \<longleftrightarrow> r = r' \<and> c = c'"
    using assms(2,4) by (rule cell_inj)
  then show ?thesis using lt by (auto simp: label_def place_def nth_list_update)
qed

lemma Transpose_abs:
  assumes "t = \<lparr>ro = 0, co = 0, dim = D\<rparr>" and "D * D < 2 ^ 32" and "r < D" and "c < D"
  shows "Transpose_op t r c = Some (r * D + c)"
proof -
  have lt: "r * D + c < D * D" using assms(3,4) by (rule cell_less)
  then have "u32 (r * D + c) = r * D + c" "u32 (D * D) = D * D"
    using assms(2) by (simp_all add: u32_id)
  then show ?thesis using lt by (simp add: Transpose_op_def assms(1))
qed

lemma place_simps [simp]:
  "abs_dim (place b v c) = abs_dim b" "rel_dim (place b v c) = rel_dim b"
  "abs_pos (place b v c) = abs_pos b" "rel_pos (place b v c) = rel_pos b"
  "p1_turn (place b v c) = p1_turn b" "nedges (place b v c) = nedges b"
  "length (vlist (place b v c)) = length (vlist b)"
  "get_nodes (place b v c) = get_nodes b"
  by (simp_all add: place_def get_nodes_def)

lemma place_elist: "elist (vlist (place b v c) ! x) = elist (vlist b ! x)"
  by (cases "x < length (vlist b)"; cases "x = v") (simp_all add: place_def list_update_beyond)

lemma painting_place: "painting D b \<Longrightarrow> painting D (place b v c)"
  by (simp add: painting_def)

lemma paint_Some:
  assumes "painting D b" and "r < D" and "c < D"
  shows "paint b r c k = Some (place b (r * D + c) k)"
proof -
  have t: "Transpose_op (abs_pos b) r c = Some (r * D + c)"
    using assms by (intro Transpose_abs) (simp_all add: painting_def)
  have "r * D + c < D * D" using assms(2,3) by (rule cell_less)
  then have "r * D + c < get_nodes b"
    using assms(1) by (simp add: painting_def get_nodes_def u32_id)
  then show ?thesis by (simp add: paint_def t set_vertex_key_place)
qed

lemma painting_label_place:
  assumes "painting D b" "r < D" "c < D" "r' < D" "c' < D"
  shows "label (place b (r' * D + c') k) r c = (if r = r' \<and> c = c' then k else label b r c)"
  using label_place [of r b c r' c' k] assms by (simp add: painting_def)

lemma paint_col_effect:
  assumes p: "painting D b" and k: "k < D" and D: "0 < D"
  shows "\<exists>b'. paint_col k b = Some b' \<and> painting D b' \<and>
           (\<forall>x. elist (vlist b' ! x) = elist (vlist b ! x)) \<and>
           b'\<lparr>vlist := []\<rparr> = b\<lparr>vlist := []\<rparr> \<and>
           (\<forall>r < D. \<forall>c < D. label b' r c =
              repaint D k r c (label b r c))"
proof -
  have u: "usub D 1 = D - 1"
    using D p square_bound [of D] by (intro usub_eq) (simp_all add: painting_def)
  have m: "D - 1 < D" and z: "0 < D" using D by simp_all
  define b1 where "b1 = place b (0 * D + k) RED"
  define b2 where "b2 = place b1 ((D - 1) * D + k) RED"
  define b3 where "b3 = place b2 (k * D + 0) BLUE"
  define b4 where "b4 = place b3 (k * D + (D - 1)) BLUE"
  define b5 where "b5 = place b4 (0 * D + 0) GRAY"
  define b6 where "b6 = place b5 (0 * D + (D - 1)) GRAY"
  define b7 where "b7 = place b6 ((D - 1) * D + 0) GRAY"
  define b8 where "b8 = place b7 ((D - 1) * D + (D - 1)) GRAY"
  note defs = b1_def b2_def b3_def b4_def b5_def b6_def b7_def b8_def
  have p1: "painting D b1" unfolding b1_def using p by (rule painting_place)
  have p2: "painting D b2" unfolding b2_def using p1 by (rule painting_place)
  have p3: "painting D b3" unfolding b3_def using p2 by (rule painting_place)
  have p4: "painting D b4" unfolding b4_def using p3 by (rule painting_place)
  have p5: "painting D b5" unfolding b5_def using p4 by (rule painting_place)
  have p6: "painting D b6" unfolding b6_def using p5 by (rule painting_place)
  have p7: "painting D b7" unfolding b7_def using p6 by (rule painting_place)
  have p8: "painting D b8" unfolding b8_def using p7 by (rule painting_place)
  have ad: "abs_dim b = D" "abs_dim b1 = D" "abs_dim b2 = D" "abs_dim b3 = D" "abs_dim b4 = D"
    "abs_dim b5 = D" "abs_dim b6 = D" "abs_dim b7 = D"
    using p p1 p2 p3 p4 p5 p6 p7 by (simp_all add: painting_def)
  have s1: "paint b 0 k RED = Some b1" unfolding b1_def using p z k by (rule paint_Some)
  have s2: "paint b1 (D - 1) k RED = Some b2" unfolding b2_def using p1 m k by (rule paint_Some)
  have s3: "paint b2 k 0 BLUE = Some b3" unfolding b3_def using p2 k z by (rule paint_Some)
  have s4: "paint b3 k (D - 1) BLUE = Some b4" unfolding b4_def using p3 k m by (rule paint_Some)
  have s5: "paint b4 0 0 GRAY = Some b5" unfolding b5_def using p4 z z by (rule paint_Some)
  have s6: "paint b5 0 (D - 1) GRAY = Some b6" unfolding b6_def using p5 z m by (rule paint_Some)
  have s7: "paint b6 (D - 1) 0 GRAY = Some b7" unfolding b7_def using p6 m z by (rule paint_Some)
  have s8: "paint b7 (D - 1) (D - 1) GRAY = Some b8"
    unfolding b8_def using p7 m m by (rule paint_Some)
  have run: "paint_col k b = Some b8"
    unfolding paint_col_def
    by (simp only: ad u s1 s2 s3 s4 s5 s6 s7 s8 Option.bind.bind_lunit)
  have el: "\<forall>x. elist (vlist b8 ! x) = elist (vlist b ! x)"
    unfolding defs by (simp add: place_elist)
  have fr: "b8\<lparr>vlist := []\<rparr> = b\<lparr>vlist := []\<rparr>"
    unfolding defs by (simp add: place_def)
  have lab: "label b8 r c =
              repaint D k r c (label b r c)" if r: "r < D" and c: "c < D" for r c
  proof -
    have l8: "label b8 r c = (if r = D - 1 \<and> c = D - 1 then GRAY else label b7 r c)"
      unfolding b8_def using p7 r c m m by (rule painting_label_place)
    have l7: "label b7 r c = (if r = D - 1 \<and> c = 0 then GRAY else label b6 r c)"
      unfolding b7_def using p6 r c m z by (rule painting_label_place)
    have l6: "label b6 r c = (if r = 0 \<and> c = D - 1 then GRAY else label b5 r c)"
      unfolding b6_def using p5 r c z m by (rule painting_label_place)
    have l5: "label b5 r c = (if r = 0 \<and> c = 0 then GRAY else label b4 r c)"
      unfolding b5_def using p4 r c z z by (rule painting_label_place)
    have l4: "label b4 r c = (if r = k \<and> c = D - 1 then BLUE else label b3 r c)"
      unfolding b4_def using p3 r c k m by (rule painting_label_place)
    have l3: "label b3 r c = (if r = k \<and> c = 0 then BLUE else label b2 r c)"
      unfolding b3_def using p2 r c k z by (rule painting_label_place)
    have l2: "label b2 r c = (if r = D - 1 \<and> c = k then RED else label b1 r c)"
      unfolding b2_def using p1 r c m k by (rule painting_label_place)
    have l1: "label b1 r c = (if r = 0 \<and> c = k then RED else label b r c)"
      unfolding b1_def using p r c z k by (rule painting_label_place)
    show ?thesis unfolding l8 l7 l6 l5 l4 l3 l2 l1 repaint_def by auto
  qed
  show ?thesis using run p8 el fr lab by blast
qed

lemma paint_color_Suc:
  assumes "r < D" "c < D" "k < D"
  shows "repaint D k r c (paint_color D k r c) = paint_color D (Suc k) r c"
  using assms by (auto simp: paint_color_def repaint_def less_Suc_eq)

lemma paint_loop:
  assumes p: "painting D b" and D: "0 < D" and w: "\<forall>r < D. \<forall>c < D. label b r c = WHITE"
  shows "\<exists>b'. for_each [0..<D] paint_col b = Some b' \<and> painting D b' \<and>
           (\<forall>x. elist (vlist b' ! x) = elist (vlist b ! x)) \<and>
           b'\<lparr>vlist := []\<rparr> = b\<lparr>vlist := []\<rparr> \<and>
           (\<forall>r < D. \<forall>c < D. label b' r c = paint_color D D r c)"
proof -
  let ?P = "\<lambda>k b'. painting D b' \<and> (\<forall>x. elist (vlist b' ! x) = elist (vlist b ! x)) \<and>
           b'\<lparr>vlist := []\<rparr> = b\<lparr>vlist := []\<rparr> \<and>
           (\<forall>r < D. \<forall>c < D. label b' r c = paint_color D k r c)"
  have init: "?P 0 b" using p w by (simp add: paint_color_def)
  have step: "\<exists>s'. paint_col k s = Some s' \<and> ?P (Suc k) s'" if k: "k < D" and P: "?P k s" for k s
  proof -
    from P have ps: "painting D s" and el: "\<forall>x. elist (vlist s ! x) = elist (vlist b ! x)"
      and fr: "s\<lparr>vlist := []\<rparr> = b\<lparr>vlist := []\<rparr>"
      and lab: "\<And>r c. r < D \<Longrightarrow> c < D \<Longrightarrow> label s r c = paint_color D k r c"
      by simp_all
    from paint_col_effect [OF ps k D] obtain s' where s': "paint_col k s = Some s'"
      "painting D s'" "\<forall>x. elist (vlist s' ! x) = elist (vlist s ! x)"
      "s'\<lparr>vlist := []\<rparr> = s\<lparr>vlist := []\<rparr>"
      and lab': "\<And>r c. r < D \<Longrightarrow> c < D \<Longrightarrow> label s' r c = repaint D k r c (label s r c)"
      by blast
    have "label s' r c = paint_color D (Suc k) r c" if "r < D" "c < D" for r c
      by (simp only: lab' [OF that] lab [OF that] paint_color_Suc [OF that k])
    moreover have "\<forall>x. elist (vlist s' ! x) = elist (vlist b ! x)" using s'(3) el by simp
    moreover have "s'\<lparr>vlist := []\<rparr> = b\<lparr>vlist := []\<rparr>" using s'(4) fr by simp
    ultimately show ?thesis using s'(1,2) by simp
  qed
  show ?thesis
    by (rule for_each_upt_invariant [where P = ?P and body = paint_col and n = D and s = b,
          OF init step])
qed

lemma add_edge_total:
  assumes val: "validate_vertices g a c"
    and sym: "is_adjacent_V (vlist g ! a) c \<Longrightarrow> is_adjacent_V (vlist g ! c) a"
  shows "add_edge g a c w \<noteq> None"
proof (cases "is_adjacent_V (vlist g ! a) c")
  case False
  then show ?thesis using val by (simp add: add_edge_def is_adjacent_def Let_def)
next
  case True
  have la: "a < length (vlist g)" and lc: "c < length (vlist g)"
    using val by (simp_all add: validate_vertices_def validate_vertex_length)
  from True have "c \<in> set (get_neighbors_V (vlist g ! a))" by (simp add: is_adjacent_V_iff)
  from set_weight_V_Some [OF this, of w] obtain va where
    va: "set_weight_V (vlist g ! a) c w = Some va" by blast
  have na: "get_neighbors_V va = get_neighbors_V (vlist g ! a)"
    using set_weight_V_neighbors [OF va] by simp
  have "a \<in> set (get_neighbors_V ((vlist g)[a := va] ! c))"
  proof (cases "c = a")
    case True
    then show ?thesis using la na \<open>c \<in> set (get_neighbors_V (vlist g ! a))\<close> by simp
  next
    case False
    then show ?thesis using sym [OF True] by (simp add: is_adjacent_V_iff)
  qed
  from set_weight_V_Some [OF this, of w] obtain vc where
    "set_weight_V ((vlist g)[a := va] ! c) a w = Some vc" by blast
  then show ?thesis
    using val True va by (simp add: add_edge_def is_adjacent_def set_edge_weight_def Let_def)
qed

lemma add_edge_update:
  "add_edge g a c w = Some g' \<Longrightarrow> \<exists>l n. g' = g\<lparr>vlist := l, nedges := n\<rparr>"
proof -
  assume ae: "add_edge g a c w = Some g'"
  show ?thesis
  proof (cases "is_adjacent_V (vlist g ! a) c")
    case False
    then show ?thesis using ae
      by (auto simp: add_edge_def is_adjacent_def Let_def split: if_splits)
  next
    case True
    then have "set_edge_weight g a c w = Some g'"
      using ae by (auto simp: add_edge_def is_adjacent_def split: if_splits)
    then have "\<exists>l. g' = g\<lparr>vlist := l\<rparr>"
      by (auto simp: set_edge_weight_def Let_def split: if_splits option.splits)
    then obtain l where "g' = g\<lparr>vlist := l, nedges := nedges g\<rparr>" by auto
    then show ?thesis by blast
  qed
qed

lemma add_edge_wired:
  assumes wg: "wired g" and a: "a < get_nodes g" and c: "c < get_nodes g" and ne: "a \<noteq> c"
  shows "\<exists>g'. add_edge g a c w = Some g' \<and> wired g' \<and>
           edge_set g' = edge_set g \<union> {(a, c), (c, a)} \<and>
           length (vlist g') = length (vlist g) \<and>
           (\<forall>x < length (vlist g). key (vlist g' ! x) = key (vlist g ! x)) \<and>
           (\<exists>l n. g' = g\<lparr>vlist := l, nedges := n\<rparr>)"
proof -
  have val: "validate_vertices g a c"
    using a c by (simp add: validate_vertices_def validate_vertex_def)
  have la: "a < length (vlist g)" and lc: "c < length (vlist g)"
    using val by (simp_all add: validate_vertices_def validate_vertex_length)
  have er: "edges_in_range g"
    and dist: "\<And>x. x < length (vlist g) \<Longrightarrow> distinct (nb g x)"
    and sym: "\<And>x y. x < length (vlist g) \<Longrightarrow> y \<in> set (nb g x) \<Longrightarrow> x \<in> set (nb g y)"
    using wg by (simp_all add: wired_def)
  have ac: "c \<in> set (nb g a) \<longleftrightarrow> a \<in> set (nb g c)"
    using sym [OF la] sym [OF lc] by blast
  have "add_edge g a c w \<noteq> None"
    using val ac by (intro add_edge_total) (simp_all add: is_adjacent_V_iff nb_def)
  then obtain g' where g': "add_edge g a c w = Some g'" by auto
  note fr = add_edge_frame [OF g']
  have len: "length (vlist g') = length (vlist g)" using fr by simp
  have nb': "nb g' x = nb g x @ (if c \<in> set (nb g a) then [] else new_neighbors a c x)"
    if "x < length (vlist g)" for x
    using fr that by (simp add: nb_def is_adjacent_V_iff)
  have er': "edges_in_range g'" using er g' by (rule edges_in_range_add_edge)
  have set': "set (nb g' x) = set (nb g x) \<union> set (new_neighbors a c x)"
    if "x < length (vlist g)" for x
    using nb' [OF that] ac by (auto simp: new_neighbors_def)
  have wired': "wired g'"
    unfolding wired_def
  proof (intro conjI allI impI ballI)
    show "edges_in_range g'" by (rule er')
  next
    fix x assume "x < length (vlist g')"
    then have x: "x < length (vlist g)" using len by simp
    show "distinct (nb g' x)"
      using dist [OF x] nb' [OF x] ac ne by (auto simp: new_neighbors_def)
  next
    fix x y assume "x < length (vlist g')" and y: "y \<in> set (nb g' x)"
    then have x: "x < length (vlist g)" using len by simp
    have ly: "y < length (vlist g)"
      using edges_in_range_nth [OF er', of x y] y x len by (simp add: nb_def)
    show "x \<in> set (nb g' y)"
      using y sym [OF x, of y] unfolding set' [OF x] set' [OF ly]
      by (auto simp: new_neighbors_def split: if_splits)
  qed
  have es: "edge_set g' = edge_set g \<union> {(a, c), (c, a)}"
    unfolding edge_set_def using la lc len set' by (auto simp: new_neighbors_def split: if_splits)
  show ?thesis
    using g' wired' es len fr add_edge_update [OF g'] by blast
qed

lemma same_frame_refl: "same_frame b b"
  by (simp add: same_frame_def)

lemma same_frame_trans: "same_frame b2 b1 \<Longrightarrow> same_frame b1 b \<Longrightarrow> same_frame b2 b"
  by (simp add: same_frame_def)

lemma same_keys_refl: "same_keys b b"
  by (simp add: same_keys_def)

lemma same_keys_trans: "same_keys b2 b1 \<Longrightarrow> same_keys b1 b \<Longrightarrow> same_keys b2 b"
  by (simp add: same_keys_def)

lemma link_wiring:
  assumes W: "wiring D b" and r: "r1 < D" "c1 < D" "r2 < D" "c2 < D"
    and ne: "r1 * D + c1 \<noteq> r2 * D + c2"
  shows "\<exists>b'. link b r1 c1 r2 c2 = Some b' \<and> wiring D b' \<and>
           edge_set b' = edge_set b \<union> {(r1 * D + c1, r2 * D + c2), (r2 * D + c2, r1 * D + c1)} \<and>
           same_keys b' b \<and> same_frame b' b"
proof -
  have p: "painting D b" and w: "wired b" using W by (simp_all add: wiring_def)
  have ap: "abs_pos b = \<lparr>ro = 0, co = 0, dim = D\<rparr>" and DD: "D * D < 2 ^ 32"
    and len: "length (vlist b) = D * D" and ad: "abs_dim b = D"
    using p by (simp_all add: painting_def)
  have t1: "Transpose_op (abs_pos b) r1 c1 = Some (r1 * D + c1)"
    using ap DD r(1,2) by (rule Transpose_abs)
  have t2: "Transpose_op (abs_pos b) r2 c2 = Some (r2 * D + c2)"
    using ap DD r(3,4) by (rule Transpose_abs)
  have gn: "get_nodes b = D * D" using len DD by (simp add: get_nodes_def u32_id)
  have l1: "r1 * D + c1 < get_nodes b" unfolding gn using r(1,2) by (rule cell_less)
  have l2: "r2 * D + c2 < get_nodes b" unfolding gn using r(3,4) by (rule cell_less)
  from add_edge_wired [OF w l1 l2 ne, of 1] obtain b' l n where
    b': "add_edge b (r1 * D + c1) (r2 * D + c2) 1 = Some b'" "wired b'"
    "edge_set b' = edge_set b \<union> {(r1 * D + c1, r2 * D + c2), (r2 * D + c2, r1 * D + c1)}"
    "length (vlist b') = length (vlist b)"
    "\<forall>x < length (vlist b). key (vlist b' ! x) = key (vlist b ! x)"
    "b' = b\<lparr>vlist := l, nedges := n\<rparr>"
    by blast
  have run: "link b r1 c1 r2 c2 = Some b'" by (simp add: link_def t1 t2 b'(1))
  have "length l = D * D" using b'(4,6) len by simp
  then have p': "painting D b'" using p b'(6) by (simp add: painting_def)
  have sk: "same_keys b' b"
    unfolding same_keys_def using b'(4,5) by (intro nth_equalityI) simp_all
  have sf: "same_frame b' b" using b'(6) by (simp add: same_frame_def)
  show ?thesis using run p' b'(2,3) sk sf by (auto simp: wiring_def)
qed

lemma maybe_link:
  assumes W: "wiring D b" and r: "r1 < D" "c1 < D"
    and ok: "cond \<Longrightarrow> r2 < D \<and> c2 < D \<and> r1 * D + c1 \<noteq> r2 * D + c2"
  shows "\<exists>b'. (if cond then link b r1 c1 r2 c2 else Some b) = Some b' \<and> wiring D b' \<and>
           edge_set b' = edge_set b \<union>
             (if cond then {(r1 * D + c1, r2 * D + c2), (r2 * D + c2, r1 * D + c1)} else {}) \<and>
           same_keys b' b \<and> same_frame b' b"
proof (cases cond)
  case True
  then show ?thesis using link_wiring [OF W r, of r2 c2] ok by simp
next
  case False
  then show ?thesis using W by (simp add: same_keys_refl same_frame_refl)
qed

lemma wiring_dim: "wiring D b \<Longrightarrow> abs_dim b = D \<and> D < 2 ^ 16"
  using square_bound [of D] by (simp add: wiring_def painting_def)

lemma wire_cell_effect:
  assumes W: "wiring D b" and r: "r < D" and c: "c < D"
  shows "\<exists>b'. wire_cell r c b = Some b' \<and> wiring D b' \<and>
           edge_set b' = edge_set b \<union> cell_edges D r c \<and> same_keys b' b \<and> same_frame b' b"
proof -
  have D16: "D < 2 ^ 16" and ad: "abs_dim b = D" using wiring_dim [OF W] by simp_all
  have D0: "0 < D" using r by simp
  have u: "usub D 1 = D - 1" using D0 D16 by (intro usub_eq) simp_all
  have uc: "0 < c \<Longrightarrow> usub c 1 = c - 1" using c D16 by (intro usub_eq) simp_all
  have s1: "u32 (c + 1) = c + 1" and s2: "u32 (r + 1) = r + 1"
    using r c D16 by (simp_all add: u32_id)
  have ok1: "c < D - 1 \<Longrightarrow> r < D \<and> c + 1 < D \<and> r * D + c \<noteq> r * D + (c + 1)"
    using r by simp
  have ok2: "r < D - 1 \<Longrightarrow> r + 1 < D \<and> c < D \<and> r * D + c \<noteq> (r + 1) * D + c"
    using c by simp
  have ok3: "0 < c \<and> r < D - 1 \<Longrightarrow> r + 1 < D \<and> c - 1 < D \<and> r * D + c \<noteq> (r + 1) * D + (c - 1)"
    using c cell_inj [of c D "c - 1" r "r + 1"] by auto
  from maybe_link [OF W r c ok1] obtain b1 where b1:
    "(if c < D - 1 then link b r c r (c + 1) else Some b) = Some b1" "wiring D b1"
    "edge_set b1 = edge_set b \<union>
      (if c < D - 1 then {(r * D + c, r * D + (c + 1)), (r * D + (c + 1), r * D + c)} else {})"
    "same_keys b1 b" "same_frame b1 b" by blast
  have ad1: "abs_dim b1 = D" using wiring_dim [OF b1(2)] by simp
  from maybe_link [OF b1(2) r c ok2] obtain b2 where b2:
    "(if r < D - 1 then link b1 r c (r + 1) c else Some b1) = Some b2" "wiring D b2"
    "edge_set b2 = edge_set b1 \<union>
      (if r < D - 1 then {(r * D + c, (r + 1) * D + c), ((r + 1) * D + c, r * D + c)} else {})"
    "same_keys b2 b1" "same_frame b2 b1" by blast
  have ad2: "abs_dim b2 = D" using wiring_dim [OF b2(2)] by simp
  from maybe_link [OF b2(2) r c ok3] obtain b3 where b3:
    "(if 0 < c \<and> r < D - 1 then link b2 r c (r + 1) (c - 1) else Some b2) = Some b3"
    "wiring D b3"
    "edge_set b3 = edge_set b2 \<union>
      (if 0 < c \<and> r < D - 1
       then {(r * D + c, (r + 1) * D + (c - 1)), ((r + 1) * D + (c - 1), r * D + c)} else {})"
    "same_keys b3 b2" "same_frame b3 b2" by blast
  have c3: "(if 0 < c \<and> r < D - 1 then link b2 r c (r + 1) (usub c 1) else Some b2) = Some b3"
  proof (cases "0 < c")
    case True
    show ?thesis using b3(1) by (simp only: uc [OF True])
  next
    case False
    then show ?thesis using b3(1) by simp
  qed
  have run: "wire_cell r c b = Some b3"
    unfolding wire_cell_def
    by (simp only: ad ad1 ad2 u s1 s2 b1(1) b2(1) c3 Option.bind.bind_lunit)
  have es: "edge_set b3 = edge_set b \<union> cell_edges D r c"
    unfolding b3(3) b2(3) b1(3) cell_edges_def by (simp add: Un_assoc)
  have "same_keys b3 b" "same_frame b3 b"
    using b3(4,5) b2(4,5) b1(4,5) same_keys_trans same_frame_trans by blast+
  then show ?thesis using run b3(2) es by blast
qed

lemma wire_row_effect:
  assumes W: "wiring D b" and r: "r < D"
  shows "\<exists>b'. wire_row r b = Some b' \<and> wiring D b' \<and>
           edge_set b' = edge_set b \<union> (\<Union>c < D. cell_edges D r c) \<and>
           same_keys b' b \<and> same_frame b' b"
proof -
  have D16: "D < 2 ^ 16" and ad: "abs_dim b = D" using wiring_dim [OF W] by simp_all
  have D0: "0 < D" using r by simp
  have u: "usub D 1 = D - 1" using D0 D16 by (intro usub_eq) simp_all
  have s2: "u32 (r + 1) = r + 1" using r D16 by (simp add: u32_id)
  let ?P = "\<lambda>c b'. wiring D b' \<and> edge_set b' = edge_set b \<union> (\<Union>c' < c. cell_edges D r c') \<and>
      same_keys b' b \<and> same_frame b' b"
  have init: "?P 0 b" using W by (simp add: same_keys_refl same_frame_refl)
  have step: "\<exists>s'. wire_cell r c s = Some s' \<and> ?P (Suc c) s'" if c: "c < D" and P: "?P c s" for c s
  proof -
    from P have Ws: "wiring D s"
      and es: "edge_set s = edge_set b \<union> (\<Union>c' < c. cell_edges D r c')"
      and sk: "same_keys s b" and sf: "same_frame s b" by simp_all
    from wire_cell_effect [OF Ws r c] obtain s' where s': "wire_cell r c s = Some s'"
      "wiring D s'" "edge_set s' = edge_set s \<union> cell_edges D r c"
      "same_keys s' s" "same_frame s' s" by blast
    have "edge_set s' = edge_set b \<union> (\<Union>c' < Suc c. cell_edges D r c')"
      unfolding s'(3) es by (simp add: lessThan_Suc) blast
    moreover have "same_keys s' b" using s'(4) sk by (rule same_keys_trans)
    moreover have "same_frame s' b" using s'(5) sf by (rule same_frame_trans)
    ultimately show ?thesis using s'(1,2) by simp
  qed
  from for_each_upt_invariant [where P = ?P and body = "wire_cell r" and n = D and s = b,
      OF init step] obtain b1 where
    b1: "for_each [0..<D] (wire_cell r) b = Some b1" "wiring D b1"
    "edge_set b1 = edge_set b \<union> (\<Union>c < D. cell_edges D r c)"
    "same_keys b1 b" "same_frame b1 b" by blast
  have ad1: "abs_dim b1 = D" using wiring_dim [OF b1(2)] by simp
  have okb: "r < D - 1 \<Longrightarrow> r + 1 < D \<and> D - 1 < D \<and> r * D + (D - 1) \<noteq> (r + 1) * D + (D - 1)"
    using D0 cell_inj [of "D - 1" D "D - 1" r "r + 1"] by auto
  have m: "D - 1 < D" using D0 by simp
  from maybe_link [OF b1(2) r m okb] obtain b2 where b2:
    "(if r < D - 1 then link b1 r (D - 1) (r + 1) (D - 1) else Some b1) = Some b2" "wiring D b2"
    "edge_set b2 = edge_set b1 \<union>
      (if r < D - 1 then {(r * D + (D - 1), (r + 1) * D + (D - 1)),
                          ((r + 1) * D + (D - 1), r * D + (D - 1))} else {})"
    "same_keys b2 b1" "same_frame b2 b1" by blast
  have run: "wire_row r b = Some b2"
    unfolding wire_row_def
    by (simp only: ad ad1 u s2 b1(1) b2(1) Option.bind.bind_lunit)
  have sub: "(if r < D - 1 then {(r * D + (D - 1), (r + 1) * D + (D - 1)),
                          ((r + 1) * D + (D - 1), r * D + (D - 1))} else {})
      \<subseteq> cell_edges D r (D - 1)"
    by (simp add: cell_edges_def)
  have "cell_edges D r (D - 1) \<subseteq> (\<Union>c < D. cell_edges D r c)" using m by blast
  then have es: "edge_set b2 = edge_set b \<union> (\<Union>c < D. cell_edges D r c)"
    unfolding b2(3) b1(3) using sub by blast
  have "same_keys b2 b" "same_frame b2 b"
    using b2(4,5) b1(4,5) same_keys_trans same_frame_trans by blast+
  then show ?thesis using run b2(2) es by blast
qed

lemma wire_loop:
  assumes W: "wiring D b"
  shows "\<exists>b'. for_each [0..<D] wire_row b = Some b' \<and> wiring D b' \<and>
           edge_set b' = edge_set b \<union> hex_edges D \<and> same_keys b' b \<and> same_frame b' b"
proof -
  let ?P = "\<lambda>r b'. wiring D b' \<and>
      edge_set b' = edge_set b \<union> (\<Union>r' < r. \<Union>c < D. cell_edges D r' c) \<and>
      same_keys b' b \<and> same_frame b' b"
  have init: "?P 0 b" using W by (simp add: same_keys_refl same_frame_refl)
  have step: "\<exists>s'. wire_row r s = Some s' \<and> ?P (Suc r) s'" if r: "r < D" and P: "?P r s" for r s
  proof -
    from P have Ws: "wiring D s"
      and es: "edge_set s = edge_set b \<union> (\<Union>r' < r. \<Union>c < D. cell_edges D r' c)"
      and sk: "same_keys s b" and sf: "same_frame s b" by simp_all
    from wire_row_effect [OF Ws r] obtain s' where s': "wire_row r s = Some s'"
      "wiring D s'" "edge_set s' = edge_set s \<union> (\<Union>c < D. cell_edges D r c)"
      "same_keys s' s" "same_frame s' s" by blast
    have "edge_set s' = edge_set b \<union> (\<Union>r' < Suc r. \<Union>c < D. cell_edges D r' c)"
      unfolding s'(3) es by (simp add: lessThan_Suc) blast
    moreover have "same_keys s' b" using s'(4) sk by (rule same_keys_trans)
    moreover have "same_frame s' b" using s'(5) sf by (rule same_frame_trans)
    ultimately show ?thesis using s'(1,2) by simp
  qed
  show ?thesis
    unfolding hex_edges_def
    by (rule for_each_upt_invariant [where P = ?P and body = wire_row and n = D and s = b,
          OF init step])
qed

lemma same_keys_label:
  assumes "same_keys b' b" and "abs_dim b' = abs_dim b" and "r * abs_dim b + c < length (vlist b)"
  shows "label b' r c = label b r c"
proof -
  have len: "length (vlist b') = length (vlist b)"
    using assms(1) unfolding same_keys_def by (rule map_eq_imp_length_eq)
  have "map key (vlist b') ! (r * abs_dim b + c) = map key (vlist b) ! (r * abs_dim b + c)"
    using assms(1) by (simp add: same_keys_def)
  then show ?thesis using assms(2,3) len by (simp add: label_def)
qed

lemma blank_wired:
  assumes "\<forall>x < length (vlist g). elist (vlist g ! x) = []"
  shows "wired g" and "edge_set g = {}"
proof -
  have nbe: "nb g x = []" if "x < length (vlist g)" for x
    using assms that by (simp add: nb_def get_neighbors_V_def)
  have "edges_in_range g"
    by (rule edges_in_range_I) (use nbe in \<open>simp add: nb_def\<close>)
  then show "wired g" using nbe by (simp add: wired_def)
  show "edge_set g = {}" using nbe by (auto simp: edge_set_def)
qed

lemma wiring_p1_turn: "wiring D (b\<lparr>p1_turn := t\<rparr>) = wiring D b"
  by (simp add: wiring_def painting_def wired_def edges_in_range_def nb_def)

lemma edge_set_p1_turn: "edge_set (b\<lparr>p1_turn := t\<rparr>) = edge_set b"
  by (simp add: edge_set_def nb_def)

lemma reset_board_result:
  assumes ap: "abs_pos b0 = \<lparr>ro = 0, co = 0, dim = D\<rparr>" and ad: "abs_dim b0 = D"
    and DD: "D * D < 2 ^ 32" and D0: "0 < D"
  shows "\<exists>b. reset_board b0 = Some b \<and> wiring D b \<and> edge_set b = hex_edges D \<and>
           (\<forall>r < D. \<forall>c < D. label b r c = paint_color D D r c) \<and>
           same_frame b (b0\<lparr>p1_turn := True\<rparr>)"
proof -
  let ?v0 = "\<lparr>key = WHITE, elist = []\<rparr> :: (Color, int) Vertex"
  define b1 where "b1 = b0\<lparr>vlist := replicate (D * D) ?v0\<rparr>"
  have s1: "for_each [0..<u32 (abs_dim b0 * abs_dim b0)] (\<lambda>i b. Some (add_vertex b WHITE)) (clear b0)
      = Some b1"
    unfolding ad u32_id [OF DD] add_vertices by (simp add: clear_def b1_def)
  have p1: "painting D b1" using ap ad DD by (simp add: painting_def b1_def)
  have nth1: "vlist b1 ! x = ?v0" if "x < D * D" for x using that by (simp add: b1_def)
  have w1: "\<forall>r < D. \<forall>c < D. label b1 r c = WHITE"
    using nth1 cell_less [of _ D] p1 by (simp add: label_def painting_def)
  from paint_loop [OF p1 D0 w1] obtain b2 where b2: "for_each [0..<D] paint_col b1 = Some b2"
    "painting D b2" "\<forall>x. elist (vlist b2 ! x) = elist (vlist b1 ! x)"
    "b2\<lparr>vlist := []\<rparr> = b1\<lparr>vlist := []\<rparr>"
    "\<forall>r < D. \<forall>c < D. label b2 r c = paint_color D D r c" by blast
  have len2: "length (vlist b2) = D * D" and ad2: "abs_dim b2 = D"
    using b2(2) by (simp_all add: painting_def)
  have el2: "\<forall>x < length (vlist b2). elist (vlist b2 ! x) = []"
    using b2(3) nth1 len2 by simp
  have W2: "wiring D b2" using b2(2) blank_wired(1) [OF el2] by (simp add: wiring_def)
  have e2: "edge_set b2 = {}" using el2 by (rule blank_wired(2))
  from wire_loop [OF W2] obtain b3 where b3: "for_each [0..<D] wire_row b2 = Some b3"
    "wiring D b3" "edge_set b3 = edge_set b2 \<union> hex_edges D" "same_keys b3 b2" "same_frame b3 b2"
    by blast
  have ad1: "abs_dim b1 = D" using p1 by (simp add: painting_def)
  have ad3: "abs_dim b3 = D" using wiring_dim [OF b3(2)] by simp
  have run: "reset_board b0 = Some (b3\<lparr>p1_turn := True\<rparr>)"
    unfolding reset_board_def
    by (simp only: s1 ad1 ad2 b2(1) b3(1) Option.bind.bind_lunit)
  have lab3: "label b3 r c = paint_color D D r c" if "r < D" "c < D" for r c
  proof -
    have "r * abs_dim b2 + c < length (vlist b2)"
      unfolding ad2 len2 using that by (rule cell_less)
    then have "label b3 r c = label b2 r c"
      using b3(4) ad3 ad2 by (intro same_keys_label) simp_all
    then show ?thesis using b2(5) that by simp
  qed
  have W: "wiring D (b3\<lparr>p1_turn := True\<rparr>)"
    using b3(2) by (simp only: wiring_p1_turn)
  have E: "edge_set (b3\<lparr>p1_turn := True\<rparr>) = hex_edges D"
    unfolding edge_set_p1_turn b3(3) e2 by simp
  have L: "\<forall>r < D. \<forall>c < D. label (b3\<lparr>p1_turn := True\<rparr>) r c = paint_color D D r c"
    using lab3 by (simp add: label_def)
  have "same_frame b2 b0"
    using arg_cong [OF b2(4), of rel_dim] arg_cong [OF b2(4), of abs_dim]
      arg_cong [OF b2(4), of p1_turn] arg_cong [OF b2(4), of abs_pos]
      arg_cong [OF b2(4), of rel_pos]
    by (simp add: same_frame_def b1_def)
  with b3(5) have "same_frame b3 b0" by (rule same_frame_trans)
  then have F: "same_frame (b3\<lparr>p1_turn := True\<rparr>) (b0\<lparr>p1_turn := True\<rparr>)"
    by (simp add: same_frame_def)
  show ?thesis using run W E L F by blast
qed

lemma HexBoard_new_result:
  assumes d: "2 < d" and dd: "(d + 2) * (d + 2) < 2 ^ 32"
  shows "\<exists>b. HexBoard_new d = Some b \<and> board_inv b \<and> rel_dim b = d \<and> abs_dim b = d + 2 \<and>
           p1_turn b \<and> wired b \<and> edge_set b = hex_edges (d + 2) \<and>
           (\<forall>r < d + 2. \<forall>c < d + 2. label b r c = paint_color (d + 2) (d + 2) r c)"
proof -
  let ?D = "d + 2"
  have D16: "?D < 2 ^ 16" using dd by (rule square_bound)
  have uD: "u32 ?D = ?D" using D16 by (simp add: u32_id)
  define b0 :: HexBoard where "b0 = \<lparr>nedges = 0, vlist = [], abs_dim = ?D, rel_dim = d,
                abs_pos = \<lparr>ro = 0, co = 0, dim = ?D\<rparr>,
                rel_pos = \<lparr>ro = 1, co = 1, dim = ?D\<rparr>, p1_turn = True\<rparr>"
  have new: "HexBoard_new d = reset_board b0"
    unfolding HexBoard_new_def uD using d by (simp add: b0_def)
  have "abs_pos b0 = \<lparr>ro = 0, co = 0, dim = ?D\<rparr>" "abs_dim b0 = ?D" by (simp_all add: b0_def)
  from reset_board_result [OF this dd] obtain b where b: "reset_board b0 = Some b"
    "wiring ?D b" "edge_set b = hex_edges ?D"
    "\<forall>r < ?D. \<forall>c < ?D. label b r c = paint_color ?D ?D r c"
    "same_frame b (b0\<lparr>p1_turn := True\<rparr>)" by auto
  have f: "rel_dim b = d" "abs_dim b = ?D" "p1_turn b"
    "abs_pos b = \<lparr>ro = 0, co = 0, dim = ?D\<rparr>" "rel_pos b = \<lparr>ro = 1, co = 1, dim = ?D\<rparr>"
    using b(5) by (simp_all add: same_frame_def b0_def)
  have w: "wired b" and len: "length (vlist b) = ?D * ?D"
    using b(2) by (simp_all add: wiring_def painting_def)
  have "board_inv b"
    unfolding board_inv_def f using d dd len w by (simp add: wired_def f)
  then show ?thesis using new b(1,3,4) f w by simp
qed

section \<open>Adding the same edge twice\<close>




lemma loops_paired_cong:
  assumes "length (vlist g') = length (vlist g)"
    and "\<forall>x < length (vlist g). get_neighbors_V (vlist g' ! x) = get_neighbors_V (vlist g ! x)"
    and "loops_paired g"
  shows "loops_paired g'"
  using assms unfolding loops_paired_def by (simp add: length_edges_to)


lemma loops_paired_clear: "loops_paired (clear g)"
  by (simp add: loops_paired_def clear_def)


lemma loops_paired_set_vertex_key:
  assumes "loops_paired g" and "set_vertex_key g x k = Some g'"
  shows "loops_paired g'"
  by (rule loops_paired_cong [OF set_vertex_key_length [OF assms(2)]
        set_vertex_key_neighbors [OF assms(2)] assms(1)])

lemma loops_paired_set_edge_weight:
  assumes "loops_paired g" and "set_edge_weight g a b w = Some g'"
  shows "loops_paired g'"
proof -
  from set_edge_weight_frame [OF assms(2)]
  have len: "length (vlist g') = length (vlist g)"
    and nb: "\<forall>x < length (vlist g). get_neighbors_V (vlist g' ! x) = get_neighbors_V (vlist g ! x)"
    by simp_all
  show ?thesis by (rule loops_paired_cong [OF len nb assms(1)])
qed




section \<open>Playing a move\<close>

lemma new_board_3:
  obtains b where "HexBoard_new 3 = Some b" and "board_inv b" and "rel_dim b = 3"
    and "abs_dim b = 5" and "p1_turn b"
    and "\<forall>r < 5. \<forall>c < 5. label b r c = paint_color 5 5 r c"
proof -
  have "(2 :: nat) < 3" "((3 :: nat) + 2) * (3 + 2) < 2 ^ 32" by simp_all
  from HexBoard_new_result [OF this] obtain b where "HexBoard_new 3 = Some b" "board_inv b"
    "rel_dim b = 3" "abs_dim b = 3 + 2" "p1_turn b"
    "\<forall>r < 3 + 2. \<forall>c < 3 + 2. label b r c = paint_color (3 + 2) (3 + 2) r c"
    by blast
  then show thesis by (intro that [of b]) simp_all
qed

lemma in_range_small:
  "rel_dim b = 3 \<Longrightarrow> in_range b 1 1" "rel_dim b = 3 \<Longrightarrow> \<not> in_range b (- 1) 1"
  by (simp_all add: in_range_def)

lemma target_small: "abs_dim b = 5 \<Longrightarrow> target b 1 1 = 2 * 5 + 2"
  by (simp add: target_def)



text \<open>
  Claim C1. On every board and for every (row, col) inside \<open>[0, rel_dim)\<^sup>2\<close> whose target
  vertex is labelled \<^verbatim>\<open>WHITE\<close>, \<^verbatim>\<open>play\<close> gives that vertex the colour of the current player
  and asks \<^verbatim>\<open>is_victory\<close> for that colour. If the answer is yes it returns the win outcome
  of the current player (\<^verbatim>\<open>P1_WIN\<close> or \<^verbatim>\<open>P2_WIN\<close>) and leaves the turn flag as it was;
  otherwise it flips the turn flag and returns \<^verbatim>\<open>NO_WIN\<close>.
\<close>

theorem play_legal:
  assumes "board_inv b" and "in_range b rowi coli"
    and "key (vlist b ! target b rowi coli) = WHITE"
  shows "\<exists>won.
    is_victory (place b (target b rowi coli) (get_current_player_symbol b))
      (get_current_player_symbol b) =
      Some (won, place b (target b rowi coli) (get_current_player_symbol b)) \<and>
    play b rowi coli =
      Some (if won
            then (if p1_turn b then P1_WIN else P2_WIN,
                  place b (target b rowi coli) (get_current_player_symbol b))
            else (NO_WIN, (place b (target b rowi coli) (get_current_player_symbol b))
                            \<lparr>p1_turn := \<not> p1_turn b\<rparr>))"
proof -
  let ?c = "get_current_player_symbol b"
  let ?b1 = "place b (target b rowi coli) ?c"
  have c: "?c = (if p1_turn b then BLUE else RED)" by (simp add: get_current_player_symbol_def)
  have "board_inv ?b1" using assms(1) by (rule board_inv_place)
  from is_victory_total [OF this, of ?c] obtain won where
    won: "is_victory ?b1 ?c = Some (won, ?b1)" by blast
  have "play b rowi coli =
      Some (if won then (if p1_turn b then P1_WIN else P2_WIN, ?b1)
            else (NO_WIN, ?b1\<lparr>p1_turn := \<not> p1_turn b\<rparr>))"
    unfolding play_in_range [OF assms(1,2)] using assms(3) won
    by (simp add: c [symmetric])
  with won show ?thesis by blast
qed

theorem play_legal_witness:
  "\<exists>b won. HexBoard_new 3 = Some b \<and> board_inv b \<and> in_range b 1 1 \<and>
     key (vlist b ! target b 1 1) = WHITE \<and>
     is_victory (place b (target b 1 1) (get_current_player_symbol b))
       (get_current_player_symbol b) =
       Some (won, place b (target b 1 1) (get_current_player_symbol b)) \<and>
     play b 1 1 =
       Some (if won
             then (if p1_turn b then P1_WIN else P2_WIN,
                   place b (target b 1 1) (get_current_player_symbol b))
             else (NO_WIN, (place b (target b 1 1) (get_current_player_symbol b))
                             \<lparr>p1_turn := \<not> p1_turn b\<rparr>))"
proof -
  obtain b where b: "HexBoard_new 3 = Some b" "board_inv b" "rel_dim b = 3" "abs_dim b = 5"
    "p1_turn b"
    and lab: "\<forall>r < 5. \<forall>c < 5. label b r c = paint_color 5 5 r c"
    by (rule new_board_3)
  have ir: "in_range b 1 1" using b(3) by (rule in_range_small)
  have "label b 2 2 = WHITE" using lab by (simp add: paint_color_def)
  then have w: "key (vlist b ! target b 1 1) = WHITE"
    by (simp add: label_def target_small [OF b(4)] b(4))
  from play_legal [OF b(2) ir w] obtain won where
    "is_victory (place b (target b 1 1) (get_current_player_symbol b))
       (get_current_player_symbol b) =
       Some (won, place b (target b 1 1) (get_current_player_symbol b)) \<and>
     play b 1 1 =
       Some (if won
             then (if p1_turn b then P1_WIN else P2_WIN,
                   place b (target b 1 1) (get_current_player_symbol b))
             else (NO_WIN, (place b (target b 1 1) (get_current_player_symbol b))
                             \<lparr>p1_turn := \<not> p1_turn b\<rparr>))" ..
  then show ?thesis
    using b(1,2) ir w by (intro exI [of _ b] exI [of _ won] conjI) simp_all
qed

text \<open>
  Claim C10. \<^verbatim>\<open>is_victory\<close> does not change the board: whenever the call returns, the
  board it leaves is the board it was given, so the labels, the adjacency lists with their
  weights, the edge count and the turn flag are the same before and after; and on every
  board (\<open>board_inv\<close>) the call does return.
\<close>

theorem is_victory_frame:
  "(\<forall>r b'. is_victory b symb = Some (r, b') \<longrightarrow>
      map key (vlist b') = map key (vlist b) \<and> map elist (vlist b') = map elist (vlist b) \<and>
      get_edges b' = get_edges b \<and> p1_turn b' = p1_turn b \<and> b' = b) \<and>
   (board_inv b \<longrightarrow> (\<exists>r. is_victory b symb = Some (r, b)))"
proof (intro conjI allI impI)
  fix r b' assume "is_victory b symb = Some (r, b')"
  then have "b' = b" by (rule is_victory_board)
  then show "map key (vlist b') = map key (vlist b)" "map elist (vlist b') = map elist (vlist b)"
    "get_edges b' = get_edges b" "p1_turn b' = p1_turn b" "b' = b"
    by simp_all
next
  assume "board_inv b"
  then show "\<exists>r. is_victory b symb = Some (r, b)" by (rule is_victory_total)
qed

theorem is_victory_frame_witness:
  "\<exists>b r. HexBoard_new 3 = Some b \<and> board_inv b \<and> is_victory b BLUE = Some (r, b) \<and>
     map key (vlist b) = map key (vlist b) \<and> get_edges b = get_edges b"
proof -
  obtain b where b: "HexBoard_new 3 = Some b" "board_inv b" "rel_dim b = 3" "abs_dim b = 5"
    "p1_turn b"
    and lab: "\<forall>r < 5. \<forall>c < 5. label b r c = paint_color 5 5 r c"
    by (rule new_board_3)
  have "\<exists>r. is_victory b BLUE = Some (r, b)"
    using is_victory_frame [of b BLUE] b(2) by (elim conjE) simp
  then obtain r where "is_victory b BLUE = Some (r, b)" ..
  with b show ?thesis by (intro exI [of _ b] exI [of _ r] conjI) simp_all
qed

section \<open>The colours of the margin\<close>

lemma label_at_label:
  assumes "board_inv b" and "r < abs_dim b" and "c < abs_dim b"
  shows "label_at b r c = Some (label b r c)"
proof -
  have "r * abs_dim b + c < get_nodes b"
    unfolding board_inv_nodes [OF assms(1)] using assms(2,3) by (rule cell_less)
  then show ?thesis
    by (simp add: label_at_def abs_pos_Some [OF assms] get_vertex_key_Some label_def)
qed

lemma walls_from_labels:
  assumes inv: "board_inv b"
    and lab: "\<forall>r < abs_dim b. \<forall>c < abs_dim b. label b r c = paint_color (abs_dim b) (abs_dim b) r c"
  shows "walls b"
proof -
  let ?D = "abs_dim b"
  have D: "4 < ?D" using inv by (rule board_inv_dim)
  have la: "label_at b r c = Some (paint_color ?D ?D r c)" if "r < ?D" "c < ?D" for r c
    using label_at_label [OF inv that] lab that by simp
  have z: "0 < ?D" and m: "?D - 1 < ?D" using D by simp_all
  show ?thesis
    unfolding walls_def
  proof (intro conjI ballI)
    show "label_at b 0 0 = Some GRAY" using la [OF z z] D by (simp add: paint_color_def)
    show "label_at b 0 (?D - 1) = Some GRAY" using la [OF z m] D by (simp add: paint_color_def)
    show "label_at b (?D - 1) 0 = Some GRAY" using la [OF m z] D by (simp add: paint_color_def)
    show "label_at b (?D - 1) (?D - 1) = Some GRAY"
      using la [OF m m] D by (simp add: paint_color_def)
  next
    fix c assume "c \<in> set [1..<?D - 1]"
    then have c: "0 < c" "c < ?D - 1" "c < ?D" by auto
    show "label_at b 0 c = Some RED" using la [OF z c(3)] c by (simp add: paint_color_def)
    show "label_at b (?D - 1) c = Some RED" using la [OF m c(3)] c by (simp add: paint_color_def)
  next
    fix r assume "r \<in> set [1..<?D - 1]"
    then have r: "0 < r" "r < ?D - 1" "r < ?D" by auto
    show "label_at b r 0 = Some BLUE" using la [OF r(3) z] r by (simp add: paint_color_def)
    show "label_at b r (?D - 1) = Some BLUE" using la [OF r(3) m] r by (simp add: paint_color_def)
  qed
qed

lemma label_at_place_margin:
  assumes inv: "board_inv b" and ir: "in_range b rowi coli"
    and r: "r < abs_dim b" and c: "c < abs_dim b"
    and margin: "r = 0 \<or> r = abs_dim b - 1 \<or> c = 0 \<or> c = abs_dim b - 1"
  shows "label_at (place b (target b rowi coli) k) r c = label_at b r c"
proof -
  let ?D = "abs_dim b"
  have rc: "unat rowi < rel_dim b" "unat coli < rel_dim b"
    using inv ir in_range_unat by simp_all
  have D: "?D = rel_dim b + 2" using inv by (rule board_invD)
  have t: "target b rowi coli = Suc (unat rowi) * ?D + Suc (unat coli)"
    using ir by (rule target_unat)
  have ne: "\<not> (r = Suc (unat rowi) \<and> c = Suc (unat coli))" using margin rc D by auto
  have inv': "board_inv (place b (target b rowi coli) k)" using inv by (rule board_inv_place)
  have len: "length (vlist b) = ?D * ?D" using inv by (rule board_invD)
  have "label (place b (Suc (unat rowi) * ?D + Suc (unat coli)) k) r c = label b r c"
    using label_place [of r b c "Suc (unat rowi)" "Suc (unat coli)" k] r c rc D len ne by simp
  then show ?thesis
    using label_at_label [OF inv' , of r c] label_at_label [OF inv r c] r c by (simp add: t)
qed

lemma walls_place:
  assumes inv: "board_inv b" and ir: "in_range b rowi coli" and w: "walls b"
  shows "walls (place b (target b rowi coli) k)"
proof -
  let ?D = "abs_dim b"
  have D: "4 < ?D" using inv by (rule board_inv_dim)
  have z: "0 < ?D" and m: "?D - 1 < ?D" using D by simp_all
  note lp = label_at_place_margin [OF inv ir]
  show ?thesis
    using w unfolding walls_def place_simps
    by (auto simp: lp z m)
qed

lemma label_at_turn: "label_at (b\<lparr>p1_turn := t\<rparr>) r c = label_at b r c"
proof -
  have "get_vertex_key (b\<lparr>p1_turn := t\<rparr>) p = get_vertex_key b p" for p
    by (simp add: get_vertex_key_def validate_vertex_def get_nodes_def)
  then show ?thesis by (cases "Transpose_op (abs_pos b) r c") (simp_all add: label_at_def)
qed

lemma walls_turn: "walls (b\<lparr>p1_turn := t\<rparr>) = walls b"
  by (simp add: walls_def label_at_turn)

lemma board_inv_turn:
  assumes "board_inv b"
  shows "board_inv (b\<lparr>p1_turn := t\<rparr>)"
proof (rule board_inv_cong [OF assms])
  have "edges_in_range b" using assms by (rule board_invD)
  then show "edges_in_range (b\<lparr>p1_turn := t\<rparr>)" by (simp add: edges_in_range_def)
qed simp_all

lemma play_keeps_walls:
  assumes inv: "board_inv b" and w: "walls b"
  shows "\<exists>outcome b'. play b rowi coli = Some (outcome, b') \<and> board_inv b' \<and> walls b' \<and>
           abs_dim b' = abs_dim b"
proof (cases "in_range b rowi coli")
  case False
  with inv have "play b rowi coli = Some (OOB_ERROR, b)" by (rule play_out_of_bounds)
  then show ?thesis using inv w by blast
next
  case True
  let ?c = "if p1_turn b then BLUE else RED"
  let ?b1 = "place b (target b rowi coli) ?c"
  have inv1: "board_inv ?b1" using inv by (rule board_inv_place)
  have w1: "walls ?b1" using inv True w by (rule walls_place)
  from is_victory_total [OF inv1, of ?c] obtain won where
    won: "is_victory ?b1 ?c = Some (won, ?b1)" by blast
  show ?thesis
  proof (cases "key (vlist b ! target b rowi coli) \<noteq> WHITE")
    case occ: True
    then have "play b rowi coli = Some (OCC_ERROR, b)"
      unfolding play_in_range [OF inv True] by simp
    then show ?thesis using inv w by blast
  next
    case False
    then have p: "play b rowi coli =
        (if won then Some (if p1_turn ?b1 then P1_WIN else P2_WIN, ?b1)
         else Some (NO_WIN, ?b1\<lparr>p1_turn := \<not> p1_turn ?b1\<rparr>))"
      unfolding play_in_range [OF inv True] using won by simp
    show ?thesis
    proof (cases won)
      case True
      then show ?thesis using p inv1 w1 by simp
    next
      case False
      then have "play b rowi coli = Some (NO_WIN, ?b1\<lparr>p1_turn := \<not> p1_turn ?b1\<rparr>)"
        using p by simp
      moreover have "board_inv (?b1\<lparr>p1_turn := \<not> p1_turn ?b1\<rparr>)"
        using inv1 by (rule board_inv_turn)
      moreover have "walls (?b1\<lparr>p1_turn := \<not> p1_turn ?b1\<rparr>)"
        using w1 by (simp only: walls_turn)
      moreover have "abs_dim (?b1\<lparr>p1_turn := \<not> p1_turn ?b1\<rparr>) = abs_dim b" by simp
      ultimately show ?thesis by blast
    qed
  qed
qed

lemma plays_keep_walls:
  "board_inv b \<Longrightarrow> walls b \<Longrightarrow>
   \<exists>b'. plays b ms = Some b' \<and> board_inv b' \<and> walls b' \<and> abs_dim b' = abs_dim b"
proof (induction ms arbitrary: b)
  case Nil
  then show ?case by simp
next
  case (Cons m ms)
  obtain rowi coli where m: "m = (rowi, coli)" by (cases m)
  from play_keeps_walls [OF Cons.prems, of rowi coli] obtain outcome b1 where
    b1: "play b rowi coli = Some (outcome, b1)" "board_inv b1" "walls b1"
      "abs_dim b1 = abs_dim b" by blast
  from Cons.IH [OF b1(2,3)] obtain b' where "plays b1 ms = Some b'" "board_inv b'" "walls b'"
    "abs_dim b' = abs_dim b1" by blast
  then show ?case using b1(1,4) m by simp
qed

lemma reset_board_inv:
  assumes inv: "board_inv b0"
  shows "\<exists>b. reset_board b0 = Some b \<and> board_inv b \<and> walls b"
proof -
  let ?D = "abs_dim b0"
  have D: "4 < ?D" using inv by (rule board_inv_dim)
  then have D0: "0 < ?D" by simp
  have ap: "abs_pos b0 = \<lparr>ro = 0, co = 0, dim = ?D\<rparr>" using inv by (rule board_invD)
  have DD: "?D * ?D < 2 ^ 32" using inv by (rule board_invD)
  from reset_board_result [OF ap refl DD D0] obtain b where b: "reset_board b0 = Some b"
    "wiring ?D b" "\<forall>r < ?D. \<forall>c < ?D. label b r c = paint_color ?D ?D r c"
    "same_frame b (b0\<lparr>p1_turn := True\<rparr>)" by auto
  have f: "rel_dim b = rel_dim b0" "abs_dim b = ?D" "abs_pos b = abs_pos b0"
    "rel_pos b = rel_pos b0"
    using b(4) by (simp_all add: same_frame_def)
  have w: "edges_in_range b" and len: "length (vlist b) = length (vlist b0)"
    using b(2) board_invD(4) [OF inv] by (simp_all add: wiring_def painting_def wired_def)
  have binv: "board_inv b" using inv w f len by (rule board_inv_cong)
  have "walls b" using binv b(3) unfolding f(2) [symmetric] by (rule walls_from_labels)
  with b(1) binv show ?thesis by blast
qed

lemma reset_board_overflow:
  assumes ad: "abs_dim b0 = D" and ap: "abs_pos b0 = \<lparr>ro = 0, co = 0, dim = D\<rparr>"
    and D0: "0 < D" and DD: "u32 (D * D) = 0"
  shows "reset_board b0 = None"
proof -
  have up: "[0..<D] = 0 # [Suc 0..<D]" using D0 by (rule upt_conv_Cons)
  have "paint (clear b0) 0 0 RED = None"
    by (simp add: paint_def Transpose_op_def clear_def ap DD)
  then have "paint_col 0 (clear b0) = None" by (simp add: paint_col_def)
  then have "for_each [0..<D] paint_col (clear b0) = None" unfolding up by simp
  then show ?thesis
    unfolding reset_board_def ad DD by (simp add: clear_def ad)
qed

text \<open>
  Claim C4, with the bound that the 32-bit vertex numbers put on the dimension. For every
  dimension \<open>d > 2\<close> whose grid of \<open>(d + 2) * (d + 2)\<close> vertices can be numbered, that is
  \<open>(d + 2) * (d + 2) < 2 ^ 32\<close>, the constructor (which is \<^verbatim>\<open>reset_board\<close> on the empty
  graph) returns a board whose four corners are \<^verbatim>\<open>GRAY\<close>, whose top and bottom rows are
  \<^verbatim>\<open>RED\<close> between the corners and whose left and right columns are \<^verbatim>\<open>BLUE\<close> between the
  corners. Every sequence of \<^verbatim>\<open>play\<close> calls on it, whatever the arguments and the outcomes,
  returns a board with the same labels, and so does a later \<^verbatim>\<open>reset_board\<close>.
\<close>

theorem reset_board_walls:
  assumes "2 < d" and "(d + 2) * (d + 2) < 2 ^ 32"
  shows "\<exists>b. HexBoard_new d = Some b \<and> abs_dim b = d + 2 \<and> walls b \<and>
           (\<forall>ms. \<exists>b'. plays b ms = Some b' \<and> abs_dim b' = d + 2 \<and> walls b' \<and>
              (\<exists>b''. reset_board b' = Some b'' \<and> walls b''))"
proof -
  from HexBoard_new_result [OF assms] obtain b where b: "HexBoard_new d = Some b" "board_inv b"
    "abs_dim b = d + 2"
    "\<forall>r < d + 2. \<forall>c < d + 2. label b r c = paint_color (d + 2) (d + 2) r c" by blast
  have w: "walls b" using b(2) b(4) unfolding b(3) [symmetric] by (rule walls_from_labels)
  have "\<exists>b'. plays b ms = Some b' \<and> abs_dim b' = d + 2 \<and> walls b' \<and>
              (\<exists>b''. reset_board b' = Some b'' \<and> walls b'')" for ms
  proof -
    from plays_keep_walls [OF b(2) w, of ms] obtain b' where
      b': "plays b ms = Some b'" "board_inv b'" "walls b'" "abs_dim b' = abs_dim b" by blast
    from reset_board_inv [OF b'(2)] obtain b'' where "reset_board b' = Some b''" "walls b''"
      by blast
    with b' b(3) show ?thesis by simp
  qed
  with b(1,3) w show ?thesis by blast
qed

theorem reset_board_walls_witness:
  "\<exists>b. HexBoard_new 3 = Some b \<and> abs_dim b = 3 + 2 \<and> walls b \<and>
     (\<forall>ms. \<exists>b'. plays b ms = Some b' \<and> abs_dim b' = 3 + 2 \<and> walls b' \<and>
        (\<exists>b''. reset_board b' = Some b'' \<and> walls b''))"
  using reset_board_walls [of 3] by simp

text \<open>
  Without the bound the colouring fails. For \<open>d = 65534\<close> the product \<open>65536 * 65536\<close> wraps to
  \<open>0\<close>: no vertex is added and the first index assertion of the colouring loop fails, so the
  constructor does not return. For \<open>d = 4294967294\<close> the sum \<open>d + 2\<close> wraps to \<open>0\<close>: the
  constructor returns a board with no vertex at all, and asking for the label of a corner fails.
\<close>

theorem reset_board_walls_overflow:
  "HexBoard_new 65534 = None \<and>
   map_option get_nodes (HexBoard_new 4294967294) = Some 0 \<and>
   map_option (\<lambda>b. label_at b 0 0) (HexBoard_new 4294967294) = Some None \<and>
   map_option walls (HexBoard_new 4294967294) = Some False"
proof -
  have a: "HexBoard_new 65534 = None"
  proof -
    have "u32 (65534 + 2) = 65536" by (simp add: u32_def)
    moreover have "u32 (65536 * 65536) = 0" by (simp add: u32_def)
    ultimately show ?thesis
      unfolding HexBoard_new_def Let_def by (simp add: reset_board_overflow [of _ 65536])
  qed
  have u: "u32 (4294967294 + 2) = 0" by (simp add: u32_def)
  have n: "HexBoard_new 4294967294 =
      Some \<lparr>nedges = 0, vlist = [], abs_dim = 0, rel_dim = 4294967294,
            abs_pos = \<lparr>ro = 0, co = 0, dim = 0\<rparr>, rel_pos = \<lparr>ro = 1, co = 1, dim = 0\<rparr>,
            p1_turn = True\<rparr>"
    unfolding HexBoard_new_def Let_def u by (simp add: reset_board_def clear_def u32_def)
  have l: "label_at \<lparr>nedges = 0, vlist = [], abs_dim = 0, rel_dim = 4294967294,
            abs_pos = \<lparr>ro = 0, co = 0, dim = 0\<rparr>, rel_pos = \<lparr>ro = 1, co = 1, dim = 0\<rparr>,
            p1_turn = True\<rparr> 0 0 = None"
    by (simp add: label_at_def Transpose_op_def u32_def)
  show ?thesis unfolding n using a l by (simp add: walls_def get_nodes_def u32_def)
qed

end
